theory Spec2Isabelle
  imports Main
begin

section \<open>Strings, letters and digits\<close>

text \<open>
  The program is JavaScript. Its strings are modelled as \<open>string\<close> (lists of
  \<open>char\<close>), covering the ASCII range; \<open>toUpperCase\<close> is the ASCII case map
  (a to z become A to Z, every other character stays), which is what the program's
  \<open>toUpperCase\<close> does on ASCII strings. The numbers of the column check are
  double-precision floating-point numbers, modelled below with their rounding. The
  \<open>debug\<close> argument only prints to the console and is left out.
\<close>

definition code :: "char \<Rightarrow> nat" where
  "code c = of_char c"

definition upper_char :: "char \<Rightarrow> char" where
  "upper_char c =
     (if 97 \<le> code c \<and> code c \<le> 122 then ''ABCDEFGHIJKLMNOPQRSTUVWXYZ'' ! (code c - 97) else c)"

definition toUpperCase :: "string \<Rightarrow> string" where
  "toUpperCase s = map upper_char s"

text \<open>The test \<open>char < 'A' || char > 'Z'\<close> of the validation, on one character.\<close>

definition not_capital :: "char \<Rightarrow> bool" where
  "not_capital c = (code c < 65 \<or> code c > 90)"

text \<open>
  \<open>String(n)\<close> for a non-negative integer: its decimal numeral. \<open>digit_char\<close> is
  only applied to numbers below 10.
\<close>

definition digit_char :: "nat \<Rightarrow> char" where
  "digit_char d = ''0123456789'' ! d"

fun String_of :: "nat \<Rightarrow> string" where
  "String_of n = (if n < 10 then [digit_char n] else String_of (n div 10) @ [digit_char (n mod 10)])"

declare String_of.simps [simp del]

definition is_digit :: "char \<Rightarrow> bool" where
  "is_digit c = (48 \<le> code c \<and> code c \<le> 57)"

section \<open>Numbers\<close>

text \<open>
  Every number the column check computes is a non-negative integer held in a double, or
  \<open>Infinity\<close>, or \<open>NaN\<close>. A double has a significand of 53 bits: an integer below
  \<open>2 ^ 53\<close> is held exactly, a larger one is rounded to the nearest integer of the form
  \<open>q * 2 ^ e\<close> with \<open>q < 2 ^ 53\<close>, a tie going to the even \<open>q\<close>, and what rounds
  to \<open>2 ^ 1024\<close> or more is \<open>Infinity\<close>.
\<close>

datatype number = Finite nat | Infinity | NaN

fun bit_length :: "nat \<Rightarrow> nat" where
  "bit_length n = (if n = 0 then 0 else Suc (bit_length (n div 2)))"

declare bit_length.simps [simp del]

definition round_double :: "nat \<Rightarrow> number" where
  "round_double n =
     (let e = bit_length n - 53;
          q = n div 2 ^ e;
          r = n mod 2 ^ e;
          q = (if 2 * r > 2 ^ e \<or> (2 * r = 2 ^ e \<and> odd q) then q + 1 else q)
      in if q * 2 ^ e < 2 ^ 1024 then Finite (q * 2 ^ e) else Infinity)"

text \<open>
  \<open>Number(s)\<close>: a string of decimal digits is read as the double nearest to its value,
  the empty string as 0, and a string with any other character as \<open>NaN\<close>. JavaScript
  also reads exponent and radix forms such as 1E5 or 0X1F; they need a letter left in the
  string, and the solver only converts strings in which every letter has been replaced.
\<close>

fun digits_value :: "string \<Rightarrow> nat \<Rightarrow> nat" where
  "digits_value [] acc = acc"
| "digits_value (c # cs) acc = digits_value cs (10 * acc + (code c - 48))"

definition Number :: "string \<Rightarrow> number" where
  "Number s = (if list_all is_digit s then round_double (digits_value s 0) else NaN)"

section \<open>Assignments and substitution\<close>

text \<open>
  The \<open>mappings\<close> object: its keys are single letters, kept in insertion order, each
  bound to a digit. A key is only ever added when absent, so the association list has
  no duplicate key.
\<close>

type_synonym assignment = "(char \<times> nat) list"

definition has_key :: "assignment \<Rightarrow> char \<Rightarrow> bool" where
  "has_key m c = (c \<in> set (map fst m))"

text \<open>\<open>string.split(c)\<close> for a one-character separator, and \<open>parts.join(sep)\<close>.\<close>

fun split :: "string \<Rightarrow> char \<Rightarrow> string list" where
  "split [] c = [[]]"
| "split (x # xs) c =
     (if x = c then [] # split xs c
      else (case split xs c of [] \<Rightarrow> [[x]] | p # ps \<Rightarrow> (x # p) # ps))"

fun join :: "string list \<Rightarrow> string \<Rightarrow> string" where
  "join [] sep = []"
| "join [p] sep = p"
| "join (p # q # ps) sep = p @ sep @ join (q # ps) sep"

definition replace_all :: "string \<Rightarrow> char \<Rightarrow> string \<Rightarrow> string" where
  "replace_all string old_substring new_substring = join (split string old_substring) new_substring"

fun substitute :: "string \<Rightarrow> assignment \<Rightarrow> string" where
  "substitute string [] = string"
| "substitute string ((char, v) # mapping) = substitute (replace_all string char (String_of v)) mapping"

section \<open>Helper functions\<close>

fun any :: "'a list \<Rightarrow> ('a \<Rightarrow> bool) \<Rightarrow> bool" where
  "any [] predicate = False"
| "any (x # array) predicate = (if predicate x then True else any array predicate)"

definition maxlen :: "string list \<Rightarrow> nat" where
  "maxlen array = foldl (\<lambda>a b. if a > b then a else b) 0 (map length array)"

text \<open>
  \<open>rev_hash\<close> turns the assignment round: an object whose keys are the digits in use.
  \<open>elt in rev_mappings\<close> is then \<open>rev_hash mappings elt \<noteq> None\<close>.
\<close>

definition rev_hash :: "assignment \<Rightarrow> (nat \<rightharpoonup> char)" where
  "rev_hash hash = foldl (\<lambda>reverse (key, v). reverse(v \<mapsto> key)) Map.empty hash"

text \<open>
  \<open>word[0] == char\<close>: an empty word has no first character, and the comparison of
  \<open>undefined\<close> with a character is false.
\<close>

definition starts_with :: "char \<Rightarrow> string \<Rightarrow> bool" where
  "starts_with char word = (case word of [] \<Rightarrow> False | x # _ \<Rightarrow> x = char)"

definition get_possible_values :: "char \<Rightarrow> string list \<Rightarrow> assignment \<Rightarrow> nat list" where
  "get_possible_values char words mappings =
     (let rev_mappings = rev_hash mappings;
          values = [0, 1, 2, 3, 4, 5, 6, 7, 8, 9];
          values = (if any words (starts_with char) then filter (\<lambda>elt. elt \<noteq> 0) values else values)
      in filter (\<lambda>elt. rev_mappings elt = None) values)"

section \<open>Errors\<close>

text \<open>
  The program throws strings. Each constructor is one \<open>throw\<close> site and carries what
  the message quotes: the words as given, the offending words, the letters, the
  operator. \<open>TypeError\<close> is the runtime's own error when \<open>check_equal\<close> is handed
  an empty word list and a non-empty assignment.
\<close>

datatype error =
    NotEnoughWords "string list"
  | NoResult
  | InvalidCharacters "string list"
  | TooManyLetters string
  | InvalidOperation string
  | TypeError

text \<open>The four validation errors are what the specification calls InvalidPuzzle.\<close>

fun InvalidPuzzle :: "error \<Rightarrow> bool" where
  "InvalidPuzzle (NotEnoughWords ws) = True"
| "InvalidPuzzle NoResult = True"
| "InvalidPuzzle (InvalidCharacters ws) = True"
| "InvalidPuzzle (TooManyLetters cs) = True"
| "InvalidPuzzle e = False"

fun UnsupportedOperator :: "error \<Rightarrow> bool" where
  "UnsupportedOperator (InvalidOperation operation) = True"
| "UnsupportedOperator e = False"

section \<open>The column check\<close>

text \<open>
  The operators \<open>+\<close>, \<open>*\<close>, \<open>%\<close> and \<open>==\<close> on these numbers. A sum or product of
  finite numbers is the exact one, rounded; the remainder of finite numbers is exact.
  \<open>NaN\<close> makes every result \<open>NaN\<close> and every comparison false.
\<close>

definition nan_add :: "number \<Rightarrow> number \<Rightarrow> number" where
  "nan_add a b =
     (case (a, b) of
        (Finite x, Finite y) \<Rightarrow> round_double (x + y)
      | (NaN, _) \<Rightarrow> NaN
      | (_, NaN) \<Rightarrow> NaN
      | _ \<Rightarrow> Infinity)"

definition nan_mult :: "number \<Rightarrow> number \<Rightarrow> number" where
  "nan_mult a b =
     (case (a, b) of
        (Finite x, Finite y) \<Rightarrow> round_double (x * y)
      | (NaN, _) \<Rightarrow> NaN
      | (_, NaN) \<Rightarrow> NaN
      | (Infinity, Finite y) \<Rightarrow> (if y = 0 then NaN else Infinity)
      | (Finite x, Infinity) \<Rightarrow> (if x = 0 then NaN else Infinity)
      | (Infinity, Infinity) \<Rightarrow> Infinity)"

definition nan_mod :: "number \<Rightarrow> number \<Rightarrow> number" where
  "nan_mod a b =
     (case (a, b) of
        (Finite x, Finite y) \<Rightarrow> (if y = 0 then NaN else Finite (x mod y))
      | (Finite x, Infinity) \<Rightarrow> Finite x
      | _ \<Rightarrow> NaN)"

definition nan_eq :: "number \<Rightarrow> number \<Rightarrow> bool" where
  "nan_eq a b =
     (case (a, b) of
        (Finite x, Finite y) \<Rightarrow> x = y
      | (Infinity, Infinity) \<Rightarrow> True
      | _ \<Rightarrow> False)"

text \<open>
  \<open>Math.pow(10, len)\<close>: the double nearest to the power, the power itself up to
  \<open>10 ^ 22\<close>.
\<close>

definition pow10 :: "nat \<Rightarrow> number" where
  "pow10 len = round_double (10 ^ len)"

text \<open>
  \<open>check_equal\<close>: \<open>len = 0\<close> is the falsy window, for which the words are taken whole
  and the result is not reduced. \<open>elt.substring(elt.length - len, elt.length)\<close> clamps
  a negative start to 0, as the truncating subtraction does.
\<close>

definition check_equal :: "string list \<Rightarrow> string \<Rightarrow> nat \<Rightarrow> assignment \<Rightarrow> error + bool" where
  "check_equal words operation len mappings =
     (let new_words = (if len \<noteq> 0 then map (\<lambda>elt. drop (length elt - len) elt) words else words);
          operands = map (\<lambda>word. Number (substitute word mappings)) (butlast new_words);
          compare = (\<lambda>result.
            let result = (if len \<noteq> 0 then nan_mod result (pow10 len) else result)
            in if new_words = [] then (if mappings = [] then Inr False else Inl TypeError)
               else Inr (nan_eq result (Number (substitute (last new_words) mappings))))
      in if operation = ''+'' then compare (foldl nan_add (Finite 0) operands)
         else if operation = ''*'' then compare (foldl nan_mult (Finite 1) operands)
         else Inl (InvalidOperation operation))"

section \<open>Formatting\<close>

definition repeat :: "char \<Rightarrow> nat \<Rightarrow> string" where
  "repeat char len = replicate len char"

definition pad :: "string \<Rightarrow> nat \<Rightarrow> string" where
  "pad word width = repeat (CHR '' '') (width - length word) @ word"

text \<open>
  \<open>pretty_expression\<close> with an assignment given. The operator sign goes in front of the
  last operand, a line of dashes before the result. With fewer than two words the
  assignment to index \<open>length - 2\<close> adds no element.
\<close>

definition pretty_expression :: "string list \<Rightarrow> string \<Rightarrow> assignment \<Rightarrow> string" where
  "pretty_expression words operator mapping =
     (let words = map (\<lambda>word. substitute word mapping) words;
          width = maxlen words + 2;
          words = (if 2 \<le> length words
                   then words[length words - 2 := operator @ '' '' @ words ! (length words - 2)]
                   else words);
          words = take (length words - 1) words @ [repeat (CHR ''-'') width] @ drop (length words - 1) words
      in join (map (\<lambda>word. pad word width) words) [CHR 0x0A])"

definition expression_of :: "string list \<Rightarrow> string \<Rightarrow> assignment \<Rightarrow> string" where
  "expression_of words operation mappings =
     substitute (join (butlast words) operation @ ''='' @ last words) mappings"

section \<open>The search\<close>

text \<open>
  A callback is handed the assignment, the substituted expression and the layout. What
  it does is recorded as the list of sink invocations it causes, with either an error
  or its return value: \<open>None\<close> for a value that \<open>isNaN\<close> holds of (such as
  \<open>undefined\<close>), \<open>Some n\<close> for the integer \<open>n\<close> (\<open>true\<close>, \<open>false\<close> and \<open>null\<close>
  count as 1, 0 and 0 in \<open>isNaN\<close> and in \<open>+=\<close>). The counts are integers and are
  added as such; the program adds doubles, which is the same as long as the magnitudes
  stay below \<open>2 ^ 53\<close>. A return value that is a fraction, or a numeric string, which
  \<open>+=\<close> appends instead of adding, has no counterpart in this type.
\<close>

type_synonym call = "assignment \<times> string \<times> string"

type_synonym 'a outcome = "call list \<times> (error + 'a)"

type_synonym callback = "assignment \<Rightarrow> string \<Rightarrow> string \<Rightarrow> (int option) outcome"

text \<open>
  The scan of \<open>do_layer\<close> for the first word that reaches column \<open>len\<close> with a letter
  not yet bound there.
\<close>

fun first_missing :: "string list \<Rightarrow> nat \<Rightarrow> assignment \<Rightarrow> char option" where
  "first_missing [] len mappings = None"
| "first_missing (word # words) len mappings =
     (if length word \<ge> len \<and> \<not> has_key mappings (word ! (length word - len))
      then Some (word ! (length word - len))
      else first_missing words len mappings)"

definition unbound :: "string list \<Rightarrow> nat \<Rightarrow> char set \<Rightarrow> nat" where
  "unbound words len keys =
     length (filter (\<lambda>word. length word \<ge> len \<and> word ! (length word - len) \<notin> keys) words)"

lemma first_missing_unbound:
  "first_missing words len m = Some c \<Longrightarrow> 0 < len \<Longrightarrow>
   unbound words len (insert c (set (map fst m))) < unbound words len (set (map fst m))"
proof (induction words)
  case Nil
  then show ?case by simp
next
  case (Cons w ws)
  have mono: "unbound ws len (insert c (set (map fst m))) \<le> unbound ws len (set (map fst m))"
    unfolding unbound_def
    by (induction ws) auto
  show ?case
  proof (cases "length w \<ge> len \<and> \<not> has_key m (w ! (length w - len))")
    case True
    with Cons.prems have "c = w ! (length w - len)" by simp
    with True mono show ?thesis
      by (simp add: unbound_def has_key_def)
  next
    case False
    with Cons have "unbound ws len (insert c (set (map fst m))) < unbound ws len (set (map fst m))"
      by simp
    then show ?thesis
      by (auto simp: unbound_def)
  qed
qed

text \<open>
  \<open>do_layer\<close> binds the letters of column \<open>len\<close> one at a time and then checks the
  window \<open>check_len\<close>. \<open>try_values\<close> is its \<open>values.forEach\<close>: the binding is added at
  the end of the assignment for the recursive call and is gone afterwards, and
  \<open>num_hits\<close> is the sum of what the calls return. An error ends the loop.
\<close>

function do_layer :: "string list \<Rightarrow> string \<Rightarrow> nat \<Rightarrow> assignment \<Rightarrow> callback \<Rightarrow> nat \<Rightarrow> int outcome"
  and try_values :: "string list \<Rightarrow> string \<Rightarrow> nat \<Rightarrow> assignment \<Rightarrow> callback \<Rightarrow> nat \<Rightarrow> char \<Rightarrow> nat list \<Rightarrow> int outcome"
where
  "do_layer words operation len mappings callback check_len =
     (let operation = (if operation = [] then ''+'' else operation);
          check_len = (if check_len = 0 then len else check_len)
      in case (if len \<noteq> 0 then first_missing words len mappings else None) of
           Some char \<Rightarrow>
             try_values words operation len mappings callback check_len char
               (get_possible_values char words mappings)
         | None \<Rightarrow>
             (case check_equal words operation check_len mappings of
                Inl err \<Rightarrow> ([], Inl err)
              | Inr True \<Rightarrow>
                  (case callback mappings (expression_of words operation mappings)
                          (pretty_expression words operation mappings) of
                     (calls, Inl err) \<Rightarrow> (calls, Inl err)
                   | (calls, Inr None) \<Rightarrow> (calls, Inr 1)
                   | (calls, Inr (Some result)) \<Rightarrow> (calls, Inr result))
              | Inr False \<Rightarrow> ([], Inr 0)))"
| "try_values words operation len mappings callback check_len char [] = ([], Inr 0)"
| "try_values words operation len mappings callback check_len char (v # values) =
     (case do_layer words operation len (mappings @ [(char, v)]) callback check_len of
        (calls, Inl err) \<Rightarrow> (calls, Inl err)
      | (calls, Inr hits) \<Rightarrow>
          (case try_values words operation len mappings callback check_len char values of
             (calls', Inl err) \<Rightarrow> (calls @ calls', Inl err)
           | (calls', Inr num_hits) \<Rightarrow> (calls @ calls', Inr (hits + num_hits))))"
  by pat_completeness auto

termination
  apply (relation "inv_image (less_than <*lex*> less_than)
    (\<lambda>x. case x of
        Inl (words, operation, len, mappings, callback, check_len) \<Rightarrow>
          (unbound words len (set (map fst mappings)), 0)
      | Inr (words, operation, len, mappings, callback, check_len, char, vs) \<Rightarrow>
          (unbound words len (insert char (set (map fst mappings))), Suc (length vs)))")
     apply (intro wf_inv_image wf_lex_prod wf_less_than)
    apply (auto split: if_splits dest: first_missing_unbound)
  done

declare do_layer.simps [simp del]

text \<open>
  Lines 110 to 121 of \<open>solve_singleop\<close>: whether some column below \<open>len\<close> still has
  to be solved first. The index \<open>word.length - len - jj\<close> is negative or names a
  character of the word; a negative index reads \<open>undefined\<close>, which is no key.
\<close>

definition needs_lower :: "string list \<Rightarrow> nat \<Rightarrow> assignment \<Rightarrow> bool" where
  "needs_lower words len mappings =
     list_ex (\<lambda>jj. list_ex (\<lambda>word.
         length word > len - jj \<and>
         (length word < len + jj \<or> \<not> has_key mappings (word ! (length word - len - jj))))
       words) [1..<len]"

text \<open>
  The recursion of \<open>solve_singleop\<close> with \<open>len\<close> given: the recursive call passes
  \<open>len - 1\<close> as \<open>len\<close> and as \<open>check_len\<close>, both at least 1, an operator and an
  assignment, so it skips the initialisation and is this function again. Its callback
  runs \<open>do_layer\<close> for column \<open>len\<close> on every assignment the lower columns accept.
\<close>

function solve_layers :: "string list \<Rightarrow> string \<Rightarrow> callback \<Rightarrow> nat \<Rightarrow> assignment \<Rightarrow> nat \<Rightarrow> int outcome" where
  "solve_layers words operation callback len mappings check_len =
     (if needs_lower words len mappings
      then solve_layers words operation
             (\<lambda>submapping expression pretty.
                case do_layer words operation len submapping callback check_len of
                  (calls, Inl err) \<Rightarrow> (calls, Inl err)
                | (calls, Inr hits) \<Rightarrow> (calls, Inr (Some hits)))
             (len - 1) mappings (len - 1)
      else do_layer words operation len mappings callback check_len)"
  by pat_completeness auto
termination
  by (relation "measure (\<lambda>(words, operation, callback, len, mappings, check_len). len)")
     (auto simp: needs_lower_def list_ex_iff)

declare solve_layers.simps [simp del]

text \<open>First-occurrence order of the keys of the \<open>chars\<close> object.\<close>

fun keys_of :: "string \<Rightarrow> string" where
  "keys_of [] = []"
| "keys_of (c # cs) = c # filter (\<lambda>x. x \<noteq> c) (keys_of cs)"

text \<open>
  \<open>solve_singleop\<close>. An argument left out is falsy: \<open>len = 0\<close>, \<open>check_len = 0\<close>, the
  empty operator, and the empty assignment for \<open>mappings\<close>. The callback is always
  given here (left out, the program prints each solution to the console).
\<close>

definition solve_singleop :: "string list \<Rightarrow> string \<Rightarrow> callback \<Rightarrow> nat \<Rightarrow> assignment \<Rightarrow> nat \<Rightarrow> int outcome" where
  "solve_singleop words operation callback len mappings check_len =
     (if len = 0 then
        if length words < 3 then ([], Inl (NotEnoughWords words))
        else if length (last words) < 1 then ([], Inl NoResult)
        else
          let words = map toUpperCase words;
              invalid = filter (\<lambda>word. length (filter not_capital word) > 0) words
          in if length invalid > 0 then ([], Inl (InvalidCharacters invalid))
             else
               let chars = keys_of (concat words)
               in if length chars > 10 then ([], Inl (TooManyLetters chars))
                  else
                    let len = maxlen words;
                        check_len = (if check_len = 0 then len * length words else check_len);
                        check_len = (if check_len = 0 then len else check_len);
                        operation = (if operation = [] then ''+'' else operation)
                    in solve_layers words operation callback len mappings check_len
      else
        let check_len = (if check_len = 0 then len else check_len);
            operation = (if operation = [] then ''+'' else operation)
        in solve_layers words operation callback len mappings check_len)"

text \<open>
  The call \<open>solve_singleop(words, operation, sink)\<close> of the interface. The sink returns a
  value (\<open>None\<close> when it is not a number); its invocations are recorded in order.
\<close>

type_synonym sink = "assignment \<Rightarrow> string \<Rightarrow> string \<Rightarrow> int option"

definition invoke :: "sink \<Rightarrow> callback" where
  "invoke sink = (\<lambda>mapping expression pretty. ([(mapping, expression, pretty)], Inr (sink mapping expression pretty)))"

definition solve :: "string list \<Rightarrow> string \<Rightarrow> sink \<Rightarrow> int outcome" where
  "solve words operation sink = solve_singleop words operation (invoke sink) 0 [] 0"

section \<open>Substitution replaces letters by digits\<close>

lemma join_split: "join (split s c) new = concat (map (\<lambda>x. if x = c then new else [x]) s)"
proof (induction s)
  case Nil
  then show ?case by simp
next
  case (Cons x xs)
  have "split xs c \<noteq> []"
    by (cases xs) (auto split: list.splits)
  then obtain p ps where sp: "split xs c = p # ps"
    by (cases "split xs c") auto
  with Cons show ?case
    by (cases ps) auto
qed

lemma replace_all_concat:
  "replace_all s c new = concat (map (\<lambda>x. if x = c then new else [x]) s)"
  by (simp add: replace_all_def join_split)

lemma replace_all_absent: "c \<notin> set s \<Longrightarrow> replace_all s c new = s"
  by (induction s) (auto simp: replace_all_concat)

lemma set_replace_all: "set (replace_all s c new) \<subseteq> (set s - {c}) \<union> set new"
  by (auto simp: replace_all_concat split: if_splits)

lemma code_digit_char: "d < 10 \<Longrightarrow> code (digit_char d) = 48 + d"
proof -
  assume "d < 10"
  then have "d = 0 \<or> d = 1 \<or> d = 2 \<or> d = 3 \<or> d = 4 \<or> d = 5 \<or> d = 6 \<or> d = 7 \<or> d = 8 \<or> d = 9"
    by arith
  then show ?thesis
    by (elim disjE) (simp_all add: digit_char_def code_def)
qed

lemma String_of_digits: "list_all is_digit (String_of n)"
proof (induction n rule: String_of.induct)
  case (1 n)
  show ?case
  proof (cases "n < 10")
    case True
    then show ?thesis
      by (subst String_of.simps) (simp add: is_digit_def code_digit_char)
  next
    case False
    with 1 have "list_all is_digit (String_of (n div 10))" by simp
    moreover have "is_digit (digit_char (n mod 10))"
      by (simp add: is_digit_def code_digit_char)
    ultimately show ?thesis
      using False by (subst String_of.simps) simp
  qed
qed

lemma set_substitute: "set (substitute s m) \<subseteq> set s \<union> {c. is_digit c}"
proof (induction m arbitrary: s)
  case Nil
  then show ?case by simp
next
  case (Cons kv m)
  obtain k v where kv: "kv = (k, v)" by (cases kv)
  have "set (replace_all s k (String_of v)) \<subseteq> set s \<union> {c. is_digit c}"
    using set_replace_all [of s k "String_of v"] String_of_digits [of v]
    by (auto simp: list_all_iff)
  with Cons [of "replace_all s k (String_of v)"] show ?case
    by (auto simp: kv)
qed

lemma substitute_absent: "\<forall>k\<in>set (map fst m). k \<notin> set s \<Longrightarrow> substitute s m = s"
  by (induction m arbitrary: s) (auto simp: replace_all_absent)

lemma substitute_removes_keys:
  "\<forall>k\<in>set (map fst m). \<not> is_digit k \<Longrightarrow> \<forall>k\<in>set (map fst m). k \<notin> set (substitute s m)"
proof (induction m arbitrary: s)
  case Nil
  then show ?case by simp
next
  case (Cons kv m)
  obtain k v where kv: "kv = (k, v)" by (cases kv)
  let ?s = "replace_all s k (String_of v)"
  have nd: "\<not> is_digit k" using Cons.prems by (simp add: kv)
  have "k \<notin> set ?s"
    using set_replace_all [of s k "String_of v"] String_of_digits [of v] nd
    by (auto simp: list_all_iff)
  with set_substitute [of ?s m] nd have "k \<notin> set (substitute ?s m)"
    by auto
  moreover have "\<forall>k\<in>set (map fst m). k \<notin> set (substitute ?s m)"
    using Cons.IH [of ?s] Cons.prems by simp
  ultimately show ?case
    by (simp add: kv)
qed

text \<open>
  An assignment as the solver builds them: every key a capital letter, every value a
  digit.
\<close>

definition letter_to_digit :: "assignment \<Rightarrow> bool" where
  "letter_to_digit m = list_all (\<lambda>(k, v). \<not> not_capital k \<and> v < 10) m"

lemma letter_to_digit_keys: "letter_to_digit m \<Longrightarrow> \<forall>k\<in>set (map fst m). \<not> is_digit k"
  by (auto simp: letter_to_digit_def list_all_iff not_capital_def is_digit_def)

text \<open>
  C9. \<open>substitute\<close> is idempotent for letter-to-digit assignments: substituting a
  second time changes nothing, and a string that contains no letter bound in the
  assignment is returned as it is.
\<close>

theorem substitute_idempotent:
  assumes "letter_to_digit m"
  shows "substitute (substitute s m) m = substitute s m
       \<and> ((\<forall>k\<in>set (map fst m). k \<notin> set s) \<longrightarrow> substitute s m = s)"
  using assms substitute_removes_keys [of m s] substitute_absent [of m "substitute s m"]
    substitute_absent [of m s] letter_to_digit_keys [of m]
  by blast

theorem substitute_idempotent_witness:
  "letter_to_digit [(CHR ''S'', 9), (CHR ''E'', 5)]
   \<and> substitute (substitute ''SEND'' [(CHR ''S'', 9), (CHR ''E'', 5)]) [(CHR ''S'', 9), (CHR ''E'', 5)] = ''95ND''
   \<and> CHR ''S'' \<notin> set ''95ND'' \<and> CHR ''E'' \<notin> set ''95ND''
   \<and> substitute ''95ND'' [(CHR ''S'', 9), (CHR ''E'', 5)] = ''95ND''"
proof -
  have h: "letter_to_digit [(CHR ''S'', 9), (CHR ''E'', 5)]"
    by (simp add: letter_to_digit_def not_capital_def code_def)
  have v: "substitute ''SEND'' [(CHR ''S'', 9), (CHR ''E'', 5)] = ''95ND''"
    by (simp add: replace_all_def String_of.simps digit_char_def)
  from substitute_idempotent [OF h, of "''SEND''"] substitute_idempotent [OF h, of "''95ND''"] h v
  show ?thesis
    by simp
qed

section \<open>Validation\<close>

lemma keys_of_set: "set (keys_of xs) = set xs"
  by (induction xs) auto

lemma keys_of_distinct: "distinct (keys_of xs)"
  by (induction xs) (auto simp: keys_of_set)

lemma length_keys_of: "length (keys_of xs) = card (set xs)"
  using distinct_card [OF keys_of_distinct, of xs] by (simp add: keys_of_set)

text \<open>What \<open>solve\<close> runs once the word list has passed the validation.\<close>

definition valid_puzzle :: "string list \<Rightarrow> bool" where
  "valid_puzzle ws =
     (3 \<le> length ws \<and> last ws \<noteq> []
      \<and> list_all (\<lambda>w. list_all (\<lambda>c. \<not> not_capital c) (toUpperCase w)) ws
      \<and> card (set (concat (map toUpperCase ws))) \<le> 10)"

lemma foldl_max_ge:
  "a \<le> foldl (\<lambda>a b. if a > b then a else b) a xs
   \<and> (\<forall>x\<in>set xs. x \<le> foldl (\<lambda>a b. if a > b then a else b) (a::nat) xs)"
proof (induction xs arbitrary: a)
  case Nil
  then show ?case by simp
next
  case (Cons x xs)
  from Cons [of "if a > x then a else x"] show ?case
    by (auto split: if_splits)
qed

lemma maxlen_ge: "w \<in> set words \<Longrightarrow> length w \<le> maxlen words"
  using foldl_max_ge [of 0 "map length words"] by (simp add: maxlen_def)

lemma solve_invalid:
  assumes "\<not> valid_puzzle ws"
  shows "\<exists>err. solve ws operation sink = ([], Inl err) \<and> InvalidPuzzle err"
proof (cases "length ws < 3")
  case True
  then show ?thesis by (simp add: solve_def solve_singleop_def)
next
  case long: False
  show ?thesis
  proof (cases "last ws = []")
    case True
    with long show ?thesis by (simp add: solve_def solve_singleop_def)
  next
    case result: False
    let ?W = "map toUpperCase ws"
    let ?invalid = "filter (\<lambda>word. length (filter not_capital word) > 0) ?W"
    show ?thesis
    proof (cases "?invalid = []")
      case False
      with long result show ?thesis
        by (simp add: solve_def solve_singleop_def Let_def)
    next
      case valid: True
      then have "list_all (\<lambda>w. list_all (\<lambda>c. \<not> not_capital c) (toUpperCase w)) ws"
        by (auto simp: filter_empty_conv list_all_iff)
      with assms long result have "card (set (concat ?W)) > 10"
        by (simp add: valid_puzzle_def)
      then have "length (keys_of (concat ?W)) > 10"
        by (simp only: length_keys_of)
      with long result valid show ?thesis
        by (simp add: solve_def solve_singleop_def Let_def)
    qed
  qed
qed

lemma solve_valid:
  assumes "valid_puzzle ws"
  shows "solve ws operation sink =
     solve_layers (map toUpperCase ws) (if operation = [] then ''+'' else operation) (invoke sink)
       (maxlen (map toUpperCase ws)) [] (maxlen (map toUpperCase ws) * length ws)"
proof -
  let ?W = "map toUpperCase ws"
  from assms have long: "\<not> length ws < 3" and result: "last ws \<noteq> []" and ne: "ws \<noteq> []"
    and caps: "list_all (\<lambda>w. list_all (\<lambda>c. \<not> not_capital c) (toUpperCase w)) ws"
    and few: "\<not> 10 < length (keys_of (concat ?W))"
    by (auto simp: valid_puzzle_def length_keys_of)
  from caps have inv: "filter (\<lambda>word. length (filter not_capital word) > 0) ?W = []"
    by (auto simp: filter_empty_conv list_all_iff)
  have "toUpperCase (last ws) \<in> set ?W" using ne by simp
  from maxlen_ge [OF this] result have "0 < maxlen ?W"
    by (cases "last ws") (auto simp: toUpperCase_def)
  with long have "maxlen ?W * length ws \<noteq> 0" by auto
  with long result inv few show ?thesis
    by (simp add: solve_def solve_singleop_def Let_def)
qed

text \<open>
  C6. A list of ASCII words with fewer than three words, an empty last word, a character
  that is no capital letter after uppercasing, or more than ten distinct letters makes
  \<open>solve_singleop\<close> throw one of the validation errors: the sink is not invoked and
  no count is returned.
\<close>

theorem invalid_puzzle_raised:
  assumes "\<forall>w\<in>set ws. \<forall>c\<in>set w. code c < 128"
    and "length ws < 3 \<or> last ws = []
         \<or> (\<exists>w\<in>set ws. \<exists>c\<in>set (toUpperCase w). not_capital c)
         \<or> card (set (concat (map toUpperCase ws))) > 10"
  shows "\<exists>err. solve ws operation sink = ([], Inl err) \<and> InvalidPuzzle err"
proof -
  from assms(2) have "\<not> valid_puzzle ws"
    by (auto simp: valid_puzzle_def list_all_iff)
  then show ?thesis by (rule solve_invalid)
qed

theorem invalid_puzzle_raised_witness:
  "\<exists>err. solve [''A1'', ''BB'', ''CC''] ''+'' (\<lambda>m e p. None) = ([], Inl err) \<and> InvalidPuzzle err"
  using invalid_puzzle_raised [of "[''A1'', ''BB'', ''CC'']" "''+''" "\<lambda>m e p. None"]
  by (simp add: toUpperCase_def upper_char_def not_capital_def code_def)

section \<open>Upper case\<close>

lemma capital_table:
  "k < 26 \<Longrightarrow> code (''ABCDEFGHIJKLMNOPQRSTUVWXYZ'' ! k) = 65 + k"
proof -
  assume "k < 26"
  then have "k = 0 \<or> k = 1 \<or> k = 2 \<or> k = 3 \<or> k = 4 \<or> k = 5 \<or> k = 6 \<or> k = 7 \<or> k = 8
      \<or> k = 9 \<or> k = 10 \<or> k = 11 \<or> k = 12 \<or> k = 13 \<or> k = 14 \<or> k = 15 \<or> k = 16 \<or> k = 17
      \<or> k = 18 \<or> k = 19 \<or> k = 20 \<or> k = 21 \<or> k = 22 \<or> k = 23 \<or> k = 24 \<or> k = 25"
    by arith
  then show ?thesis
    by (elim disjE) (simp_all add: code_def)
qed

lemma code_upper_char:
  "code (upper_char c) = (if 97 \<le> code c \<and> code c \<le> 122 then code c - 32 else code c)"
proof (cases "97 \<le> code c \<and> code c \<le> 122")
  case True
  then have "code c - 97 < 26" by arith
  from capital_table [OF this] True show ?thesis
    by (simp add: upper_char_def)
next
  case False
  then show ?thesis by (auto simp: upper_char_def)
qed

lemma code_inject: "code a = code b \<Longrightarrow> a = b"
  by (simp add: code_def)

lemma upper_char_idem: "upper_char (upper_char c) = upper_char c"
  by (rule code_inject) (auto simp: code_upper_char)

lemma toUpperCase_idem: "toUpperCase (toUpperCase w) = toUpperCase w"
  by (simp add: toUpperCase_def upper_char_idem)

lemma toUpperCase_empty: "toUpperCase w = [] \<longleftrightarrow> w = []"
  by (simp add: toUpperCase_def)

text \<open>
  C10, as the code has it. With three words or more, a word list and its uppercased
  copy give the same outcome: the same error, the same sink invocations in the same
  order and the same count. With fewer than three words the error is thrown before
  the words are uppercased and quotes them as they were given.
\<close>

theorem uppercase_same_outcome:
  "solve ws operation sink =
     (if length ws < 3 then ([], Inl (NotEnoughWords ws))
      else solve (map toUpperCase ws) operation sink)"
proof (cases "length ws < 3")
  case True
  then show ?thesis by (simp add: solve_def solve_singleop_def)
next
  case False
  then have ne: "ws \<noteq> []" by auto
  have l: "last (map toUpperCase ws) = toUpperCase (last ws)"
    using ne by (simp add: last_map)
  have m: "map toUpperCase (map toUpperCase ws) = map toUpperCase ws"
    by (simp add: toUpperCase_idem)
  show ?thesis
    using False
    by (simp only: solve_def solve_singleop_def l m length_map toUpperCase_empty length_0_conv
        less_one refl if_True if_False)
qed

theorem uppercase_same_outcome_witness:
  "solve [''a'', ''a'', ''b''] ''+'' (\<lambda>m e p. None) = solve [''A'', ''A'', ''B''] ''+'' (\<lambda>m e p. None)"
  using uppercase_same_outcome [of "[''a'', ''a'', ''b'']" "''+''" "\<lambda>m e p. None"]
  by (simp add: toUpperCase_def upper_char_def code_def)

text \<open>
  C10 as stated fails for a short list in lower case: the two errors quote different
  words.
\<close>

theorem uppercase_error_counterexample:
  "solve [''ab''] ''+'' (\<lambda>m e p. None) \<noteq> solve (map toUpperCase [''ab'']) ''+'' (\<lambda>m e p. None)"
  by (simp add: solve_def solve_singleop_def toUpperCase_def upper_char_def code_def)

section \<open>Invariants of the search\<close>

lemma do_layer_induct [case_names layer]:
  assumes step: "\<And>operation mappings check_len.
     (\<And>char v. len \<noteq> 0 \<Longrightarrow> first_missing words len mappings = Some char \<Longrightarrow>
         v \<in> set (get_possible_values char words mappings) \<Longrightarrow>
         P (if operation = [] then ''+'' else operation) (mappings @ [(char, v)])
           (if check_len = 0 then len else check_len))
     \<Longrightarrow> P operation mappings check_len"
  shows "P operation mappings check_len"
proof (induction "unbound words len (set (map fst mappings))"
    arbitrary: mappings operation check_len rule: less_induct)
  case less
  show ?case
  proof (rule step, goal_cases)
    case (1 char v)
    then have "unbound words len (set (map fst (mappings @ [(char, v)])))
        < unbound words len (set (map fst mappings))"
      using first_missing_unbound [of words len mappings char] by simp
    from less.hyps [OF this] show ?case .
  qed
qed

lemma try_values_calls:
  "x \<in> set (fst (try_values words operation len mappings callback check_len char vs)) \<Longrightarrow>
   \<exists>v\<in>set vs. x \<in> set (fst (do_layer words operation len (mappings @ [(char, v)]) callback check_len))"
proof (induction vs)
  case Nil
  then show ?case by simp
next
  case (Cons v vs)
  then show ?case
    by (auto split: prod.splits sum.splits)
qed

lemma do_layer_calls:
  assumes step: "\<And>m c v. P m \<Longrightarrow> len \<noteq> 0 \<Longrightarrow> first_missing words len m = Some c \<Longrightarrow>
      v \<in> set (get_possible_values c words m) \<Longrightarrow> P (m @ [(c, v)])"
  assumes cb: "\<And>m e p x. P m \<Longrightarrow>
      check_equal words (if operation = [] then ''+'' else operation)
        (if check_len = 0 then len else check_len) m = Inr True \<Longrightarrow>
      x \<in> set (fst (callback m e p)) \<Longrightarrow> Q x"
  shows "P mappings \<Longrightarrow> x \<in> set (fst (do_layer words operation len mappings callback check_len)) \<Longrightarrow> Q x"
  using cb
proof (induction operation mappings check_len rule: do_layer_induct [where len = len and words = words])
  case (layer operation mappings check_len)
  let ?op = "if operation = [] then ''+'' else operation"
  let ?cl = "if check_len = 0 then len else check_len"
  show ?case
  proof (cases "if len \<noteq> 0 then first_missing words len mappings else None")
    case None
    with layer.prems(2) have
      "check_equal words ?op ?cl mappings = Inr True"
      "x \<in> set (fst (callback mappings (expression_of words ?op mappings)
          (pretty_expression words ?op mappings)))"
      by (auto simp: do_layer.simps [of words operation len mappings] Let_def
          split: sum.splits bool.splits prod.splits option.splits if_splits)
    with layer.prems(1,3) show ?thesis by blast
  next
    case (Some c)
    then have len: "len \<noteq> 0" and fm: "first_missing words len mappings = Some c"
      by (auto split: if_splits)
    from Some layer.prems(2) have
      "x \<in> set (fst (try_values words ?op len mappings callback ?cl c (get_possible_values c words mappings)))"
      by (simp add: do_layer.simps [of words operation len mappings] Let_def)
    then obtain v where v: "v \<in> set (get_possible_values c words mappings)"
      and x: "x \<in> set (fst (do_layer words ?op len (mappings @ [(c, v)]) callback ?cl))"
      using try_values_calls by blast
    have "P (mappings @ [(c, v)])"
      using step [OF layer.prems(1) len fm v] .
    moreover have "\<And>m e p x. P m \<Longrightarrow>
      check_equal words (if ?op = [] then ''+'' else ?op) (if ?cl = 0 then len else ?cl) m = Inr True \<Longrightarrow>
      x \<in> set (fst (callback m e p)) \<Longrightarrow> Q x"
      using layer.prems(3) by (simp split: if_splits)
    ultimately show ?thesis
      using layer.IH [OF len fm v _ x] by blast
  qed
qed

lemma needs_lower_0 [simp]: "\<not> needs_lower words 0 mappings"
  by (simp add: needs_lower_def)

lemma solve_layers_calls:
  assumes step: "\<And>len m c v. P m \<Longrightarrow> len \<noteq> 0 \<Longrightarrow> first_missing words len m = Some c \<Longrightarrow>
      v \<in> set (get_possible_values c words m) \<Longrightarrow> P (m @ [(c, v)])"
  shows "P mappings \<Longrightarrow>
    (\<And>m e p x. P m \<Longrightarrow>
      check_equal words (if operation = [] then ''+'' else operation)
        (if check_len = 0 then len else check_len) m = Inr True \<Longrightarrow>
      x \<in> set (fst (callback m e p)) \<Longrightarrow> Q x) \<Longrightarrow>
    x \<in> set (fst (solve_layers words operation callback len mappings check_len)) \<Longrightarrow> Q x"
proof (induction len arbitrary: callback check_len)
  case 0
  from "0.prems"(3) have "x \<in> set (fst (do_layer words operation 0 mappings callback check_len))"
    by (simp add: solve_layers.simps [of words operation callback 0])
  then show ?case
    using do_layer_calls [where P = P and Q = Q and words = words and len = 0 and operation = operation
        and check_len = check_len and callback = callback and mappings = mappings and x = x]
      step "0.prems"(1,2) by blast
next
  case (Suc len)
  show ?case
  proof (cases "needs_lower words (Suc len) mappings")
    case False
    with Suc.prems(3) have "x \<in> set (fst (do_layer words operation (Suc len) mappings callback check_len))"
      by (simp add: solve_layers.simps [of words operation callback "Suc len"])
    then show ?thesis
      using do_layer_calls [where P = P and Q = Q and words = words and len = "Suc len" and operation = operation
        and check_len = check_len and callback = callback and mappings = mappings and x = x]
        step Suc.prems(1,2) by blast
  next
    case True
    let ?cb = "\<lambda>submapping (expression :: string) (pretty :: string).
                case do_layer words operation (Suc len) submapping callback check_len of
                  (calls, Inl err) \<Rightarrow> (calls, Inl err)
                | (calls, Inr hits) \<Rightarrow> (calls, Inr (Some hits))"
    from True Suc.prems(3) have x: "x \<in> set (fst (solve_layers words operation ?cb len mappings len))"
      by (simp add: solve_layers.simps [of words operation callback "Suc len"])
    have cb: "Q x" if m: "P m" and "x \<in> set (fst (?cb m e p))" for m e p x
    proof -
      from that have "x \<in> set (fst (do_layer words operation (Suc len) m callback check_len))"
        by (auto split: prod.splits sum.splits)
      then show "Q x"
        using do_layer_calls [where P = P and Q = Q and words = words and len = "Suc len" and operation = operation
        and check_len = check_len and callback = callback and mappings = m and x = x]
          step Suc.prems(2) m by blast
    qed
    show ?thesis
      using Suc.IH [OF Suc.prems(1) _ x] cb by blast
  qed
qed

lemma rev_hash_foldl:
  "foldl (\<lambda>reverse (key, v). reverse(v \<mapsto> key)) r m x = None \<longleftrightarrow> r x = None \<and> x \<notin> snd ` set m"
  by (induction m arbitrary: r) (auto split: if_splits)

lemma rev_hash_None: "rev_hash m v = None \<longleftrightarrow> v \<notin> snd ` set m"
  by (simp add: rev_hash_def rev_hash_foldl)

lemma any_iff: "any xs p \<longleftrightarrow> (\<exists>x\<in>set xs. p x)"
  by (induction xs) auto

lemma get_possible_values_iff:
  "v \<in> set (get_possible_values c words m) \<longleftrightarrow>
     v < 10 \<and> v \<notin> snd ` set m \<and> (v = 0 \<longrightarrow> \<not> any words (starts_with c))"
proof -
  have "v \<in> set [0, 1, 2, 3, 4, 5, 6, 7, 8, 9] \<longleftrightarrow> v < 10"
    by (simp add: eval_nat_numeral less_Suc_eq)
  then show ?thesis
    unfolding get_possible_values_def Let_def
    by (simp only: set_filter mem_Collect_eq rev_hash_None split: if_split) blast
qed

lemma first_missing_Some:
  "first_missing words len m = Some c \<Longrightarrow> len \<noteq> 0 \<Longrightarrow>
     \<not> has_key m c \<and> (\<exists>w\<in>set words. c \<in> set w)"
proof (induction words)
  case Nil
  then show ?case by simp
next
  case (Cons w ws)
  show ?case
  proof (cases "length w \<ge> len \<and> \<not> has_key m (w ! (length w - len))")
    case True
    with Cons.prems have c: "c = w ! (length w - len)" by simp
    from True Cons.prems(2) have "length w - len < length w" by arith
    then have "w ! (length w - len) \<in> set w" by (rule nth_mem)
    with True c show ?thesis by auto
  next
    case False
    with Cons show ?thesis by auto
  qed
qed

lemma solve_calls:
  assumes step: "\<And>len m c v. P m \<Longrightarrow> len \<noteq> 0 \<Longrightarrow> first_missing (map toUpperCase ws) len m = Some c \<Longrightarrow>
      v \<in> set (get_possible_values c (map toUpperCase ws) m) \<Longrightarrow> P (m @ [(c, v)])"
    and init: "P []"
    and final: "\<And>m e p. P m \<Longrightarrow>
      check_equal (map toUpperCase ws) (if operation = [] then ''+'' else operation)
        (maxlen (map toUpperCase ws) * length ws) m = Inr True \<Longrightarrow> Q (m, e, p)"
    and x: "x \<in> set (fst (solve ws operation sink))"
  shows "valid_puzzle ws \<and> Q x"
proof -
  let ?W = "map toUpperCase ws"
  let ?op = "if operation = [] then ''+'' else operation"
  have v: "valid_puzzle ws"
    using solve_invalid [of ws operation sink] x by (cases "valid_puzzle ws") auto
  then have long: "\<not> length ws < 3" and result: "last ws \<noteq> []" and ne: "ws \<noteq> []"
    by (auto simp: valid_puzzle_def)
  have "toUpperCase (last ws) \<in> set ?W" using ne by simp
  from maxlen_ge [OF this] result have "0 < maxlen ?W"
    by (cases "last ws") (auto simp: toUpperCase_def)
  with long have nz: "maxlen ?W * length ws \<noteq> 0" by auto
  from x have x': "x \<in> set (fst (solve_layers ?W ?op (invoke sink) (maxlen ?W) [] (maxlen ?W * length ws)))"
    by (simp only: solve_valid [OF v])
  have "Q x"
  proof (rule solve_layers_calls [where P = P and Q = Q and words = ?W and mappings = "[]"
        and operation = ?op and callback = "invoke sink" and len = "maxlen ?W"
        and check_len = "maxlen ?W * length ws"])
    fix len m c v
    assume "P m" "len \<noteq> 0" "first_missing ?W len m = Some c"
      "v \<in> set (get_possible_values c ?W m)"
    then show "P (m @ [(c, v)])" by (rule step)
  next
    show "P []" by (rule init)
  next
    fix m e p y
    assume "P m"
      and "check_equal ?W (if ?op = [] then ''+'' else ?op)
        (if maxlen ?W * length ws = 0 then maxlen ?W else maxlen ?W * length ws) m = Inr True"
      and "y \<in> set (fst (invoke sink m e p))"
    then show "Q y"
      using final [of m e p] nz by (simp add: invoke_def split: if_splits)
  next
    show "x \<in> set (fst (solve_layers ?W ?op (invoke sink) (maxlen ?W) [] (maxlen ?W * length ws)))"
      by (rule x')
  qed
  with v show ?thesis by blast
qed

section \<open>The search as a list of accepted assignments\<close>

text \<open>
  The letters of column \<open>len\<close>, in word order, and those of them that an
  assignment leaves to bind, each once.
\<close>

definition column :: "string list \<Rightarrow> nat \<Rightarrow> string" where
  "column words len = map (\<lambda>w. w ! (length w - len)) (filter (\<lambda>w. length w \<ge> len) words)"

definition pending :: "string list \<Rightarrow> nat \<Rightarrow> assignment \<Rightarrow> string" where
  "pending words len m = keys_of (filter (\<lambda>c. \<not> has_key m c) (column words len))"

text \<open>
  Binding the given letters in turn, each to every candidate digit in ascending
  order, and keeping the complete bindings that pass a test.
\<close>

fun bind_all :: "string list \<Rightarrow> (assignment \<Rightarrow> bool) \<Rightarrow> string \<Rightarrow> assignment \<Rightarrow> assignment list" where
  "bind_all words ok [] m = (if ok m then [m] else [])"
| "bind_all words ok (c # cs) m =
     concat (map (\<lambda>v. bind_all words ok cs (m @ [(c, v)])) (get_possible_values c words m))"

text \<open>
  Handing a list of assignments to a callback one after the other: the invocations
  are concatenated and the returned hits summed, up to the first error.
\<close>

definition hit :: "int option \<Rightarrow> int" where
  "hit r = (case r of None \<Rightarrow> 1 | Some n \<Rightarrow> n)"

fun run :: "(assignment \<Rightarrow> (int option) outcome) \<Rightarrow> assignment list \<Rightarrow> int outcome" where
  "run f [] = ([], Inr 0)"
| "run f (m # ms) =
     (case f m of
        (calls, Inl err) \<Rightarrow> (calls, Inl err)
      | (calls, Inr r) \<Rightarrow>
          (case run f ms of
             (calls', Inl err) \<Rightarrow> (calls @ calls', Inl err)
           | (calls', Inr n) \<Rightarrow> (calls @ calls', Inr (hit r + n))))"

definition present :: "string list \<Rightarrow> string \<Rightarrow> callback \<Rightarrow> assignment \<Rightarrow> (int option) outcome" where
  "present words operation callback m =
     callback m (expression_of words operation m) (pretty_expression words operation m)"

definition accepts :: "string list \<Rightarrow> string \<Rightarrow> nat \<Rightarrow> assignment \<Rightarrow> bool" where
  "accepts words operation check_len m = (check_equal words operation check_len m = Inr True)"

lemma first_missing_find:
  "first_missing words len m = find (\<lambda>c. \<not> has_key m c) (column words len)"
  by (induction words) (auto simp: column_def)

lemma keys_of_filter: "keys_of (filter Q xs) = filter Q (keys_of xs)"
proof (induction xs)
  case Nil
  then show ?case by simp
next
  case (Cons x xs)
  show ?case
  proof (cases "Q x")
    case True
    with Cons show ?thesis by (simp add: conj_commute)
  next
    case False
    then have "filter Q (keys_of xs) = filter (\<lambda>y. y \<noteq> x \<and> Q y) (keys_of xs)"
      by (auto intro: filter_cong)
    with False Cons show ?thesis by simp
  qed
qed

lemma pending_Nil: "first_missing words len m = None \<Longrightarrow> pending words len m = []"
  by (simp add: first_missing_find pending_def find_None_iff filter_empty_conv)

lemma filter_find_Some:
  "find P xs = Some c \<Longrightarrow> \<exists>rest. filter P xs = c # rest"
  by (induction xs) (auto split: if_splits)

lemma pending_Cons:
  assumes "first_missing words len m = Some c"
  shows "pending words len m = c # pending words len (m @ [(c, v)])"
proof -
  let ?P = "\<lambda>x. \<not> has_key m x"
  from assms obtain rest where rest: "filter ?P (column words len) = c # rest"
    using filter_find_Some [of ?P "column words len" c] by (auto simp: first_missing_find)
  have "filter (\<lambda>x. \<not> has_key (m @ [(c, v)]) x) (column words len)
      = filter (\<lambda>x. x \<noteq> c) (filter ?P (column words len))"
    by (auto simp: has_key_def intro: filter_cong)
  then have "pending words len (m @ [(c, v)]) = filter (\<lambda>x. x \<noteq> c) (keys_of (c # rest))"
    by (simp only: pending_def rest keys_of_filter)
  also have "\<dots> = filter (\<lambda>x. x \<noteq> c) (keys_of rest)"
    by simp
  finally show ?thesis
    by (simp add: pending_def rest)
qed

text \<open>Two runs one after the other.\<close>

definition seq :: "int outcome \<Rightarrow> int outcome \<Rightarrow> int outcome" where
  "seq a b =
     (case a of
        (calls, Inl err) \<Rightarrow> (calls, Inl err)
      | (calls, Inr hits) \<Rightarrow>
          (case b of
             (calls', Inl err) \<Rightarrow> (calls @ calls', Inl err)
           | (calls', Inr n) \<Rightarrow> (calls @ calls', Inr (hits + n))))"

lemma seq_assoc: "seq (seq a b) c = seq a (seq b c)"
  by (auto simp: seq_def split: prod.splits sum.splits)

lemma seq_neutral [simp]: "seq ([], Inr 0) b = b" "seq a ([], Inr 0) = a"
  by (auto simp: seq_def split: prod.splits sum.splits)

lemma run_append: "run f (xs @ ys) = seq (run f xs) (run f ys)"
proof (induction xs)
  case Nil
  then show ?case by simp
next
  case (Cons x xs)
  then show ?case
    by (auto simp: seq_def split: prod.splits sum.splits)
qed

lemma try_values_seq:
  "try_values words operation len m callback check_len c (v # vs) =
     seq (do_layer words operation len (m @ [(c, v)]) callback check_len)
         (try_values words operation len m callback check_len c vs)"
  by (simp add: seq_def)

lemma try_values_run:
  assumes "\<And>v. v \<in> set vs \<Longrightarrow>
      do_layer words operation len (m @ [(c, v)]) callback check_len = run f (g v)"
  shows "try_values words operation len m callback check_len c vs = run f (concat (map g vs))"
  using assms
proof (induction vs)
  case Nil
  then show ?case by simp
next
  case (Cons v vs)
  then show ?case
    by (simp only: try_values_seq run_append concat.simps list.map list.set_intros)
qed

lemma check_equal_Inr:
  assumes "operation = ''+'' \<or> operation = ''*''" and "words \<noteq> []"
  shows "\<exists>b. check_equal words operation check_len m = Inr b"
  using assms by (auto simp: check_equal_def Let_def)

lemma do_layer_run:
  assumes "operation = ''+'' \<or> operation = ''*''" and "check_len \<noteq> 0" and "len \<noteq> 0"
    and "words \<noteq> []"
  shows "do_layer words operation len m callback check_len =
     run (present words operation callback)
       (bind_all words (accepts words operation check_len) (pending words len m) m)"
  using assms(1,2)
proof (induction operation m check_len rule: do_layer_induct [where len = len and words = words])
  case (layer operation m check_len)
  from layer.prems have op: "(if operation = [] then ''+'' else operation) = operation"
    and cl: "(if check_len = 0 then len else check_len) = check_len"
    by auto
  let ?f = "present words operation callback"
  let ?ok = "accepts words operation check_len"
  show ?case
  proof (cases "first_missing words len m")
    case None
    from check_equal_Inr [OF layer.prems(1) assms(4)]
    obtain b where b: "check_equal words operation check_len m = Inr b" by blast
    have "do_layer words operation len m callback check_len = (if b then run ?f [m] else ([], Inr 0))"
      using None assms(3) b
      by (auto simp: do_layer.simps [of words operation len m] op cl present_def hit_def
          split: prod.splits sum.splits option.splits)
    with None b show ?thesis
      by (simp add: pending_Nil accepts_def)
  next
    case (Some c)
    let ?g = "\<lambda>v. bind_all words ?ok (pending words len (m @ [(c, v)])) (m @ [(c, v)])"
    obtain cs where cs: "pending words len m = c # cs"
      using pending_Cons [OF Some] by blast
    have tl: "pending words len (m @ [(c, v)]) = cs" for v
      using pending_Cons [OF Some, of v] cs by simp
    have "do_layer words operation len m callback check_len =
        try_values words operation len m callback check_len c (get_possible_values c words m)"
      using Some assms(3)
      by (simp add: do_layer.simps [of words operation len m] op cl)
    also have "\<dots> = run ?f (concat (map ?g (get_possible_values c words m)))"
    proof (rule try_values_run)
      fix v
      assume "v \<in> set (get_possible_values c words m)"
      from layer.IH [OF assms(3) Some this] layer.prems
      show "do_layer words operation len (m @ [(c, v)]) callback check_len = run ?f (?g v)"
        by (simp only: op cl) simp
    qed
    also have "concat (map ?g (get_possible_values c words m))
        = bind_all words ?ok (pending words len m) m"
      by (simp add: tl cs)
    finally show ?thesis .
  qed
qed

text \<open>
  The assignments that the columns up to \<open>len\<close> accept, following the recursion of
  \<open>solve_layers\<close>: the lower columns are checked on their own width, column \<open>len\<close> on
  \<open>check_len\<close>.
\<close>

fun accepted :: "string list \<Rightarrow> string \<Rightarrow> nat \<Rightarrow> nat \<Rightarrow> assignment \<Rightarrow> assignment list" where
  "accepted words operation 0 check_len m =
     bind_all words (accepts words operation check_len) (pending words 0 m) m"
| "accepted words operation (Suc len) check_len m =
     (if needs_lower words (Suc len) m
      then concat (map (\<lambda>sub. bind_all words (accepts words operation check_len)
                                 (pending words (Suc len) sub) sub)
                    (accepted words operation len len m))
      else bind_all words (accepts words operation check_len) (pending words (Suc len) m) m)"

declare accepted.simps [simp del]

lemma accepted_unfold:
  "accepted words operation len check_len m =
     (if len \<noteq> 0 \<and> needs_lower words len m
      then concat (map (\<lambda>sub. bind_all words (accepts words operation check_len) (pending words len sub) sub)
             (accepted words operation (len - 1) (len - 1) m))
      else bind_all words (accepts words operation check_len) (pending words len m) m)"
  by (cases len) (simp_all add: accepted.simps)

lemma run_nested:
  "run (\<lambda>sub. case run f (h sub) of (calls, Inl err) \<Rightarrow> (calls, Inl err)
                                   | (calls, Inr hits) \<Rightarrow> (calls, Inr (Some hits))) xs
   = run f (concat (map h xs))"
proof (induction xs)
  case Nil
  then show ?case by simp
next
  case (Cons x xs)
  show ?case
    by (simp add: run_append Cons seq_def hit_def split: prod.splits sum.splits)
qed

lemma needs_lower_ge2: "needs_lower words len m \<Longrightarrow> 2 \<le> len"
  by (cases len; cases "len - 1") (auto simp: needs_lower_def)

lemma solve_layers_run:
  assumes "operation = ''+'' \<or> operation = ''*''" and "words \<noteq> []"
  shows "len \<noteq> 0 \<Longrightarrow> check_len \<noteq> 0 \<Longrightarrow>
     solve_layers words operation callback len m check_len =
     run (present words operation callback) (accepted words operation len check_len m)"
proof (induction len arbitrary: callback check_len)
  case 0
  then show ?case by simp
next
  case (Suc len)
  show ?case
  proof (cases "needs_lower words (Suc len) m")
    case False
    then show ?thesis
      using do_layer_run [OF assms(1) Suc.prems(2) Suc.prems(1) assms(2)]
      by (simp add: solve_layers.simps [of words operation callback "Suc len"] accepted.simps)
  next
    case True
    then have len: "len \<noteq> 0" using needs_lower_ge2 [OF True] by simp
    let ?cb = "\<lambda>submapping (expression :: string) (pretty :: string).
                case do_layer words operation (Suc len) submapping callback check_len of
                  (calls, Inl err) \<Rightarrow> (calls, Inl err)
                | (calls, Inr hits) \<Rightarrow> (calls, Inr (Some hits))"
    let ?h = "\<lambda>sub. bind_all words (accepts words operation check_len) (pending words (Suc len) sub) sub"
    have "solve_layers words operation callback (Suc len) m check_len =
        solve_layers words operation ?cb len m len"
      using True by (simp add: solve_layers.simps [of words operation callback "Suc len"])
    also have "\<dots> = run (present words operation ?cb) (accepted words operation len len m)"
      by (rule Suc.IH [OF len len])
    also have "present words operation ?cb =
        (\<lambda>sub. case run (present words operation callback) (?h sub) of
               (calls, Inl err) \<Rightarrow> (calls, Inl err)
             | (calls, Inr hits) \<Rightarrow> (calls, Inr (Some hits)))"
      using do_layer_run [OF assms(1) Suc.prems(2) Suc.prems(1) assms(2)]
      by (intro ext) (simp add: present_def)
    also have "run \<dots> (accepted words operation len len m) =
        run (present words operation callback) (concat (map ?h (accepted words operation len len m)))"
      by (rule run_nested)
    finally show ?thesis
      using True by (simp add: accepted.simps)
  qed
qed

section \<open>The column check as arithmetic on word values\<close>

definition digit_of :: "assignment \<Rightarrow> char \<Rightarrow> nat" where
  "digit_of m c = (case map_of m c of Some d \<Rightarrow> d | None \<Rightarrow> 0)"

text \<open>The number a word stands for: its letters' digits, most significant first.\<close>

definition word_value :: "assignment \<Rightarrow> string \<Rightarrow> nat" where
  "word_value m w = foldl (\<lambda>a c. 10 * a + digit_of m c) 0 w"

definition all_bound :: "assignment \<Rightarrow> string \<Rightarrow> bool" where
  "all_bound m w = list_all (has_key m) w"

definition capitals :: "string \<Rightarrow> bool" where
  "capitals w = list_all (\<lambda>c. \<not> not_capital c) w"

definition window :: "nat \<Rightarrow> string \<Rightarrow> string" where
  "window len w = (if len \<noteq> 0 then drop (length w - len) w else w)"

definition reduce :: "nat \<Rightarrow> nat \<Rightarrow> nat" where
  "reduce len x = (if len \<noteq> 0 then x mod 10 ^ len else x)"

definition subst_char :: "assignment \<Rightarrow> char \<Rightarrow> char" where
  "subst_char m c = (case map_of m c of Some d \<Rightarrow> digit_char d | None \<Rightarrow> c)"

lemma String_of_digit: "d < 10 \<Longrightarrow> String_of d = [digit_char d]"
  by (simp add: String_of.simps)

lemma is_digit_digit_char: "d < 10 \<Longrightarrow> is_digit (digit_char d)"
  by (simp add: is_digit_def code_digit_char)

lemma replace_all_single:
  "replace_all s c [x] = map (\<lambda>y. if y = c then x else y) s"
  by (induction s) (auto simp: replace_all_concat)

lemma substitute_map:
  assumes "letter_to_digit m"
  shows "substitute s m = map (subst_char m) s"
  using assms
proof (induction m arbitrary: s)
  case Nil
  then show ?case by (simp add: subst_char_def)
next
  case (Cons kv m)
  obtain k v where kv: "kv = (k, v)" by (cases kv)
  from Cons.prems have v: "v < 10" and k: "\<not> not_capital k" and m: "letter_to_digit m"
    by (auto simp: kv letter_to_digit_def)
  have nokey: "map_of m (digit_char v) = None"
  proof (cases "map_of m (digit_char v)")
    case None
    then show ?thesis .
  next
    case (Some d)
    then have "digit_char v \<in> set (map fst m)"
      by (metis map_of_eq_None_iff option.distinct(1) set_map)
    with letter_to_digit_keys [OF m] is_digit_digit_char [OF v] show ?thesis by blast
  qed
  have "substitute s (kv # m) = map (subst_char m) (map (\<lambda>y. if y = k then digit_char v else y) s)"
    using Cons.IH [OF m] by (simp add: kv String_of_digit [OF v] replace_all_single)
  also have "\<dots> = map (subst_char (kv # m)) s"
    using nokey by (auto simp: kv subst_char_def)
  finally show ?case .
qed

lemma has_key_map_of: "has_key m c \<longleftrightarrow> map_of m c \<noteq> None"
  by (simp add: has_key_def map_of_eq_None_iff)

lemma capital_not_digit: "\<not> not_capital c \<Longrightarrow> \<not> is_digit c"
  by (auto simp: not_capital_def is_digit_def)

lemma is_digit_subst_char:
  assumes "letter_to_digit m" and "\<not> not_capital c"
  shows "is_digit (subst_char m c) \<longleftrightarrow> has_key m c"
proof (cases "map_of m c")
  case None
  with assms(2) show ?thesis
    by (simp add: subst_char_def has_key_map_of capital_not_digit)
next
  case (Some d)
  then have "(c, d) \<in> set m" by (rule map_of_SomeD)
  with assms(1) have "d < 10"
    by (auto simp: letter_to_digit_def list_all_iff)
  with Some show ?thesis
    by (simp add: subst_char_def has_key_map_of is_digit_digit_char)
qed

lemma code_subst_char:
  assumes "letter_to_digit m" and "has_key m c"
  shows "code (subst_char m c) - 48 = digit_of m c"
proof -
  from assms(2) obtain d where d: "map_of m c = Some d"
    by (auto simp: has_key_map_of)
  then have "(c, d) \<in> set m" by (rule map_of_SomeD)
  with assms(1) have "d < 10"
    by (auto simp: letter_to_digit_def list_all_iff)
  with d show ?thesis
    by (simp add: subst_char_def digit_of_def code_digit_char)
qed

lemma digits_value_subst:
  assumes "letter_to_digit m"
  shows "all_bound m w \<Longrightarrow>
    digits_value (map (subst_char m) w) acc = foldl (\<lambda>a c. 10 * a + digit_of m c) acc w"
  by (induction w arbitrary: acc) (simp_all add: all_bound_def code_subst_char [OF assms])

lemma bit_length_le: "n < 2 ^ k \<Longrightarrow> bit_length n \<le> k"
proof (induction k arbitrary: n)
  case 0
  then show ?case by (simp add: bit_length.simps)
next
  case (Suc k)
  show ?case
  proof (cases "n = 0")
    case True
    then show ?thesis by (simp add: bit_length.simps)
  next
    case False
    from Suc.prems have "n div 2 < 2 ^ k" by simp
    then have "bit_length (n div 2) \<le> k" by (rule Suc.IH)
    with False show ?thesis by (subst bit_length.simps) simp
  qed
qed

text \<open>An integer below \<open>2 ^ 53\<close> is a double.\<close>

lemma round_double_exact:
  assumes "n < 2 ^ 53"
  shows "round_double n = Finite n"
proof -
  from bit_length_le [OF assms] have "bit_length n - 53 = 0" by simp
  moreover have "(2::nat) ^ 53 < 2 ^ 1024" by simp
  with assms have "n < 2 ^ 1024" by (rule less_trans)
  ultimately show ?thesis
    by (simp add: round_double_def Let_def)
qed

lemma fifteen_digits: "(10::nat) ^ 15 < 2 ^ 53"
  by simp

lemma small_power:
  assumes "k \<le> 15"
  shows "(10::nat) ^ k < 2 ^ 53"
proof -
  have "(10::nat) ^ k \<le> 10 ^ 15"
    using assms by (intro power_increasing) simp_all
  then show ?thesis using fifteen_digits by (rule le_less_trans)
qed

lemma Number_substitute:
  assumes "letter_to_digit m" and "capitals w"
  shows "Number (substitute w m) = (if all_bound m w then round_double (word_value m w) else NaN)"
proof -
  have "list_all is_digit (map (subst_char m) w) \<longleftrightarrow> all_bound m w"
    using assms(2) is_digit_subst_char [OF assms(1)]
    by (auto simp: list_all_iff all_bound_def capitals_def)
  then show ?thesis
    by (simp add: Number_def substitute_map [OF assms(1)] digits_value_subst [OF assms(1)]
        word_value_def)
qed

lemma nan_add_simps [simp]:
  "nan_add (Finite x) (Finite y) = round_double (x + y)" "nan_add a NaN = NaN" "nan_add NaN b = NaN"
  by (auto simp: nan_add_def split: number.splits)

lemma nan_mult_simps [simp]:
  "nan_mult (Finite x) (Finite y) = round_double (x * y)" "nan_mult a NaN = NaN" "nan_mult NaN b = NaN"
  by (auto simp: nan_mult_def split: number.splits)

lemma foldl_nan_add_NaN: "foldl nan_add NaN ys = NaN"
  by (induction ys) simp_all

lemma foldl_nan_mult_NaN: "foldl nan_mult NaN ys = NaN"
  by (induction ys) simp_all

text \<open>
  Adding up or multiplying numbers that are held exactly, as long as the exact results
  stay below \<open>2 ^ 53\<close>: no step rounds.
\<close>

lemma foldl_nan_add:
  assumes "a + sum_list (map f xs) < 2 ^ 53"
  shows "foldl nan_add (Finite a) (map (\<lambda>x. if p x then Finite (f x) else NaN) xs)
   = (if list_all p xs then Finite (a + sum_list (map f xs)) else NaN)"
  using assms
proof (induction xs arbitrary: a)
  case Nil
  then show ?case by simp
next
  case (Cons x xs)
  from Cons.prems have "a + f x < 2 ^ 53" by simp
  then have r: "round_double (a + f x) = Finite (a + f x)" by (rule round_double_exact)
  from Cons.prems have "(a + f x) + sum_list (map f xs) < 2 ^ 53" by (simp add: add.assoc)
  from Cons.IH [OF this] show ?case
    by (simp add: r foldl_nan_add_NaN add.assoc)
qed

lemma foldl_nan_mult:
  assumes "\<forall>x\<in>set xs. f x \<le> B" and "1 \<le> B" and "a * B ^ length xs < 2 ^ 53"
  shows "foldl nan_mult (Finite a) (map (\<lambda>x. if p x then Finite (f x) else NaN) xs)
   = (if list_all p xs then Finite (a * prod_list (map f xs)) else NaN)"
  using assms(1,3)
proof (induction xs arbitrary: a)
  case Nil
  then show ?case by simp
next
  case (Cons x xs)
  from Cons.prems(1) have x: "f x \<le> B" by simp
  then have "a * f x * B ^ length xs \<le> a * B * B ^ length xs"
    by (intro mult_le_mono) simp_all
  also have "\<dots> = a * B ^ length (x # xs)" by simp
  finally have next_bound: "a * f x * B ^ length xs < 2 ^ 53"
    using Cons.prems(2) by (rule le_less_trans)
  have "1 \<le> B ^ length xs" using assms(2) by simp
  then have "a * f x * 1 \<le> a * f x * B ^ length xs" by (rule mult_le_mono2)
  then have "a * f x \<le> a * f x * B ^ length xs" by (simp only: mult_1_right)
  then have "a * f x < 2 ^ 53" using next_bound by (rule le_less_trans)
  then have r: "round_double (a * f x) = Finite (a * f x)" by (rule round_double_exact)
  from Cons.prems(1) have "\<forall>x\<in>set xs. f x \<le> B" by simp
  from Cons.IH [OF this next_bound] show ?case
    by (simp add: r foldl_nan_mult_NaN mult.assoc)
qed

definition combine :: "string \<Rightarrow> nat list \<Rightarrow> nat" where
  "combine operation values = (if operation = ''+'' then sum_list values else prod_list values)"

definition window_ok :: "string list \<Rightarrow> string \<Rightarrow> nat \<Rightarrow> assignment \<Rightarrow> bool" where
  "window_ok words operation len m =
     (list_all (\<lambda>w. all_bound m (window len w)) words
      \<and> reduce len (combine operation (map (\<lambda>w. word_value m (window len w)) (butlast words)))
          = word_value m (window len (last words)))"

lemma capitals_window: "capitals w \<Longrightarrow> capitals (window len w)"
  by (auto simp: capitals_def window_def list_all_iff dest: in_set_dropD)

lemma digit_of_less: "letter_to_digit m \<Longrightarrow> digit_of m c < 10"
proof (cases "map_of m c")
  case None
  then show ?thesis by (simp add: digit_of_def)
next
  case (Some d)
  assume "letter_to_digit m"
  moreover from Some have "(c, d) \<in> set m" by (rule map_of_SomeD)
  ultimately show ?thesis
    using Some by (auto simp: letter_to_digit_def list_all_iff digit_of_def)
qed

lemma foldl_digits_bound:
  assumes "letter_to_digit m"
  shows "foldl (\<lambda>a c. 10 * a + digit_of m c) a w < (a + 1) * 10 ^ length w"
proof (induction w arbitrary: a)
  case Nil
  then show ?case by simp
next
  case (Cons c w)
  have "digit_of m c < 10" using assms by (rule digit_of_less)
  then have le: "10 * a + digit_of m c + 1 \<le> 10 * (a + 1)" by simp
  have "foldl (\<lambda>a c. 10 * a + digit_of m c) (10 * a + digit_of m c) w
      < (10 * a + digit_of m c + 1) * 10 ^ length w"
    by (rule Cons)
  also have "\<dots> \<le> (10 * (a + 1)) * 10 ^ length w"
    using le by (rule mult_le_mono1)
  also have "\<dots> = (a + 1) * 10 ^ length (c # w)"
    by (simp add: algebra_simps)
  finally show ?case by simp
qed

lemma word_value_bound:
  assumes "letter_to_digit m" and "length w \<le> M"
  shows "word_value m w < 10 ^ M"
proof -
  have "word_value m w < 10 ^ length w"
    using foldl_digits_bound [OF assms(1), of 0 w] by (simp add: word_value_def)
  also have "(10::nat) ^ length w \<le> 10 ^ M"
    using assms(2) by (simp add: power_increasing)
  finally show ?thesis .
qed

lemma sum_list_bound:
  assumes "\<forall>x\<in>set xs. x < (B::nat)"
  shows "sum_list xs \<le> length xs * B"
  using assms by (induction xs) (auto simp: less_imp_le add_mono)

lemma prod_list_bound:
  assumes "\<forall>x\<in>set xs. x < (B::nat)"
  shows "prod_list xs \<le> B ^ length xs"
  using assms by (induction xs) (auto simp: less_imp_le mult_le_mono)

lemma less_ten_power: "k < (10::nat) ^ k"
  by (induction k) auto

lemma combine_bound:
  assumes xs: "\<forall>x\<in>set xs. x < (10::nat) ^ M" and M: "0 < M" and N: "length xs < N"
  shows "combine operation xs < 10 ^ (M * N)"
proof (cases "operation = ''+''")
  case True
  have "sum_list xs \<le> length xs * 10 ^ M" using xs by (rule sum_list_bound)
  also have "\<dots> < 10 ^ length xs * 10 ^ M"
    using less_ten_power [of "length xs"] by simp
  also have "\<dots> = 10 ^ (length xs + M)" by (simp add: power_add)
  also have "\<dots> \<le> 10 ^ (M * N)"
  proof (rule power_increasing)
    have "length xs + M \<le> (N - 1) + M" using N by simp
    also have "\<dots> \<le> M * (N - 1) + M" using M by simp
    also have "\<dots> = M * N" using N by (cases N) simp_all
    finally show "length xs + M \<le> M * N" .
  qed simp
  finally show ?thesis using True by (simp add: combine_def)
next
  case False
  have "prod_list xs \<le> (10 ^ M) ^ length xs" using xs by (rule prod_list_bound)
  also have "\<dots> = 10 ^ (M * length xs)" by (simp add: power_mult)
  also have "\<dots> < 10 ^ (M * N)"
    using M N by (simp add: power_strict_increasing_iff)
  finally show ?thesis using False by (simp add: combine_def)
qed

lemma window_length:
  assumes "w \<in> set words"
  shows "length (window len w) \<le> maxlen words"
proof -
  have "length (window len w) \<le> length w" by (simp add: window_def)
  then show ?thesis using maxlen_ge [OF assms] by (rule order_trans)
qed

text \<open>
  With at most 15 digits in all (\<open>maxlen words * length words \<le> 15\<close>) every operand,
  every partial sum or product and the power of ten are integers below \<open>2 ^ 53\<close>:
  the column check computes on exact numbers.
\<close>

lemma sum_small:
  assumes xs: "\<forall>x\<in>set xs. x < (10::nat) ^ M" and N: "length xs < N" and small: "M * N \<le> 15"
  shows "sum_list xs < 2 ^ 53"
proof (cases "M = 0")
  case True
  with xs have zero: "\<forall>x\<in>set xs. x = 0" by simp
  have "sum_list xs = 0" using zero by (induction xs) simp_all
  then show ?thesis by (simp only:) simp
next
  case False
  then have "0 < M" by simp
  from combine_bound [OF xs this N, of "''+''"] have "sum_list xs < 10 ^ (M * N)"
    by (simp add: combine_def)
  also have "\<dots> < 2 ^ 53" using small by (rule small_power)
  finally show ?thesis .
qed

lemma prod_small:
  assumes N: "n < N" and small: "M * N \<le> 15"
  shows "((10::nat) ^ M) ^ n < 2 ^ 53"
proof -
  from N have "n \<le> N" by simp
  then have "M * n \<le> M * N" by (rule mult_le_mono2)
  then have "M * n \<le> 15" using small by (rule order_trans)
  then have "(10::nat) ^ (M * n) < 2 ^ 53" by (rule small_power)
  then show ?thesis by (simp add: power_mult)
qed

lemma check_equal_arith:
  assumes m: "letter_to_digit m" and caps: "list_all capitals words" and ne: "words \<noteq> []"
    and op: "operation = ''+'' \<or> operation = ''*''"
    and small: "maxlen words * length words \<le> 15" and len: "len \<le> 15"
  shows "check_equal words operation len m = Inr (window_ok words operation len m)"
proof -
  let ?nw = "map (window len) words"
  let ?v = "\<lambda>w. word_value m (window len w)"
  let ?b = "\<lambda>w. all_bound m (window len w)"
  from ne have "1 \<le> length words" by (cases words) simp_all
  then have "maxlen words * 1 \<le> maxlen words * length words" by (rule mult_le_mono2)
  then have "maxlen words \<le> maxlen words * length words" by (simp only: mult_1_right)
  then have M: "maxlen words \<le> 15" using small by (rule order_trans)
  have val: "?v w < 10 ^ maxlen words" if "w \<in> set words" for w
    using word_value_bound [OF m window_length [OF that]] .
  have rd: "round_double (?v w) = Finite (?v w)" if "w \<in> set words" for w
    using less_trans [OF val [OF that] small_power [OF M]] by (rule round_double_exact)
  have "window 0 = (\<lambda>w. w)"
    by (rule ext) (simp add: window_def)
  then have nw: "(if len \<noteq> 0 then map (\<lambda>elt. drop (length elt - len) elt) words else words) = ?nw"
    by (simp add: window_def)
  have num: "Number (substitute (window len w) m) = (if ?b w then Finite (?v w) else NaN)"
    if "w \<in> set words" for w
    using that caps Number_substitute [OF m capitals_window, of w len] rd [OF that]
    by (simp add: list_all_iff)
  have operands: "map (\<lambda>word. Number (substitute word m)) (butlast ?nw)
      = map (\<lambda>w. if ?b w then Finite (?v w) else NaN) (butlast words)"
    using num by (auto simp: map_butlast [symmetric] dest: in_set_butlastD)
  have last: "Number (substitute (last ?nw) m)
      = (if ?b (last words) then Finite (?v (last words)) else NaN)"
    using num [of "last words"] ne by (simp add: last_map)
  have split: "list_all ?b words \<longleftrightarrow> list_all ?b (butlast words) \<and> ?b (last words)"
    using ne by (subst (1) append_butlast_last_id [symmetric]) (simp_all del: append_butlast_last_id)
  have vals: "\<forall>x\<in>set (map ?v (butlast words)). x < 10 ^ maxlen words"
    using val by (auto dest: in_set_butlastD)
  have shorter: "length (map ?v (butlast words)) < length words"
    using ne by simp
  have pow: "pow10 len = Finite (10 ^ len)"
    unfolding pow10_def using small_power [OF len] by (rule round_double_exact)
  from op show ?thesis
  proof
    assume plus: "operation = ''+''"
    from sum_small [OF vals shorter small]
    have "0 + sum_list (map ?v (butlast words)) < 2 ^ 53" by simp
    from foldl_nan_add [OF this, of ?b]
    have fold: "foldl nan_add (Finite 0) (map (\<lambda>w. if ?b w then Finite (?v w) else NaN) (butlast words))
        = (if list_all ?b (butlast words) then Finite (sum_list (map ?v (butlast words))) else NaN)"
      by simp
    show ?thesis
      unfolding check_equal_def nw Let_def operands last fold pow
      by (simp add: plus ne window_ok_def combine_def reduce_def nan_mod_def nan_eq_def split)
  next
    assume times: "operation = ''*''"
    have le: "\<forall>w\<in>set (butlast words). ?v w \<le> 10 ^ maxlen words"
      using val by (auto dest: in_set_butlastD intro: less_imp_le)
    have "length (butlast words) < length words" using ne by simp
    from prod_small [OF this small]
    have "1 * (10 ^ maxlen words) ^ length (butlast words) < (2::nat) ^ 53" by simp
    from foldl_nan_mult [OF le _ this, of ?b]
    have fold: "foldl nan_mult (Finite 1) (map (\<lambda>w. if ?b w then Finite (?v w) else NaN) (butlast words))
        = (if list_all ?b (butlast words) then Finite (prod_list (map ?v (butlast words))) else NaN)"
      by simp
    show ?thesis
      unfolding check_equal_def nw Let_def operands last fold pow
      by (simp add: times ne window_ok_def combine_def reduce_def nan_mod_def nan_eq_def split)
  qed
qed

text \<open>The equation itself, with no window and no reduction.\<close>

definition exact_solution :: "string list \<Rightarrow> string \<Rightarrow> assignment \<Rightarrow> bool" where
  "exact_solution words operation m =
     (list_all (all_bound m) words
      \<and> combine operation (map (word_value m) (butlast words)) = word_value m (last words))"

lemma window_ok_0: "window_ok words operation 0 m = exact_solution words operation m"
  by (simp add: window_ok_def exact_solution_def window_def reduce_def)

lemma window_ok_wide:
  assumes m: "letter_to_digit m" and ne: "words \<noteq> []" and M: "0 < maxlen words"
  shows "window_ok words operation (maxlen words * length words) m = exact_solution words operation m"
proof -
  let ?L = "maxlen words * length words"
  from ne M have L: "?L \<noteq> 0" by simp
  have le: "maxlen words \<le> ?L" using ne by (cases words) simp_all
  have win: "window ?L w = w" if "w \<in> set words" for w
  proof -
    from maxlen_ge [OF that] le have "length w \<le> ?L" by (rule order_trans)
    then show ?thesis by (simp add: window_def)
  qed
  have vals: "\<forall>x\<in>set (map (word_value m) (butlast words)). x < 10 ^ maxlen words"
    using word_value_bound [OF m maxlen_ge] by (auto dest: in_set_butlastD)
  have "length (map (word_value m) (butlast words)) < length words"
    using ne by simp
  from combine_bound [OF vals M this]
  have red: "reduce ?L (combine operation (map (word_value m) (butlast words)))
      = combine operation (map (word_value m) (butlast words))"
    using L by (simp add: reduce_def)
  have 1: "list_all (\<lambda>w. all_bound m (window ?L w)) words = list_all (all_bound m) words"
    using win by (auto simp: list_all_iff)
  have 2: "map (\<lambda>w. word_value m (window ?L w)) (butlast words) = map (word_value m) (butlast words)"
    using win by (auto dest: in_set_butlastD)
  have 3: "window ?L (last words) = last words"
    using win ne by simp
  show ?thesis
    unfolding window_ok_def exact_solution_def 1 2 3 red ..
qed

lemma check_equal_True_operation:
  "check_equal words operation len m = Inr b \<Longrightarrow> operation = ''+'' \<or> operation = ''*''"
  by (auto simp: check_equal_def Let_def split: if_splits)

lemma valid_puzzle_words:
  assumes "valid_puzzle ws"
  shows "map toUpperCase ws \<noteq> []" "list_all capitals (map toUpperCase ws)"
    "0 < maxlen (map toUpperCase ws)" "3 \<le> length ws"
proof -
  let ?W = "map toUpperCase ws"
  from assms have long: "3 \<le> length ws" and result: "last ws \<noteq> []"
    and caps: "list_all (\<lambda>w. list_all (\<lambda>c. \<not> not_capital c) (toUpperCase w)) ws"
    by (auto simp: valid_puzzle_def)
  from long have ne: "ws \<noteq> []" by auto
  then show "?W \<noteq> []" by simp
  from caps show "list_all capitals ?W"
    by (simp add: list_all_iff capitals_def)
  have "toUpperCase (last ws) \<in> set ?W" using ne by simp
  from maxlen_ge [OF this] result show "0 < maxlen ?W"
    by (cases "last ws") (auto simp: toUpperCase_def)
  show "3 \<le> length ws" by (rule long)
qed

lemma letter_to_digit_step:
  assumes caps: "list_all capitals words" and m: "letter_to_digit m" and len: "len \<noteq> 0"
    and fm: "first_missing words len m = Some c"
    and v: "v \<in> set (get_possible_values c words m)"
  shows "letter_to_digit (m @ [(c, v)])"
proof -
  from first_missing_Some [OF fm len] obtain w where "w \<in> set words" "c \<in> set w" by blast
  with caps have "\<not> not_capital c"
    by (auto simp: list_all_iff capitals_def)
  moreover from v have "v < 10" by (simp add: get_possible_values_iff)
  ultimately show ?thesis
    using m by (simp add: letter_to_digit_def)
qed

lemma accepts_arith:
  assumes "letter_to_digit m" and "list_all capitals words" and "words \<noteq> []"
    and "operation = ''+'' \<or> operation = ''*''"
    and "maxlen words * length words \<le> 15" and "len \<le> 15"
  shows "accepts words operation len m = window_ok words operation len m"
  by (simp add: accepts_def check_equal_arith [OF assms])

text \<open>
  Below sixteen digits nothing is rounded, and then what the sink is handed is a solution
  in exact arithmetic: the final check is on the window \<open>maxlen words * length words\<close>,
  which is wider than the sum or product, so its reduction changes nothing.
\<close>

lemma small_puzzle_exact:
  assumes small: "maxlen (map toUpperCase ws) * length ws \<le> 15"
    and x: "x \<in> set (fst (solve ws operation sink))"
  shows "exact_solution (map toUpperCase ws) (if operation = [] then ''+'' else operation) (fst x)"
proof -
  let ?W = "map toUpperCase ws"
  let ?op = "if operation = [] then ''+'' else operation"
  have v: "valid_puzzle ws"
    using solve_invalid [of ws operation sink] x by (cases "valid_puzzle ws") auto
  note W = valid_puzzle_words [OF v]
  from small have small': "maxlen ?W * length ?W \<le> 15" by simp
  have "valid_puzzle ws \<and> exact_solution ?W ?op (fst x)"
  proof (rule solve_calls [where P = letter_to_digit
        and Q = "\<lambda>x. exact_solution ?W ?op (fst x)", OF _ _ _ x])
    fix len m c v
    assume "letter_to_digit m" "len \<noteq> 0" "first_missing ?W len m = Some c"
      "v \<in> set (get_possible_values c ?W m)"
    with W(2) show "letter_to_digit (m @ [(c, v)])"
      by (rule letter_to_digit_step)
  next
    show "letter_to_digit []" by (simp add: letter_to_digit_def)
  next
    fix m e p
    assume m: "letter_to_digit m"
      and ok: "check_equal ?W ?op (maxlen ?W * length ws) m = Inr True"
    from check_equal_True_operation [OF ok] have op: "?op = ''+'' \<or> ?op = ''*''" .
    from ok check_equal_arith [OF m W(2) W(1) op small' small]
    have "window_ok ?W ?op (maxlen ?W * length ?W) m" by simp
    with window_ok_wide [OF m W(1) W(3), of ?op] have "exact_solution ?W ?op m"
      by (simp only:)
    then show "exact_solution ?W ?op (fst (m, e, p))"
      by (simp only: fst_conv)
  qed
  then show ?thesis ..
qed

section \<open>An operator other than + and *\<close>

lemma check_equal_invalid:
  assumes "operation \<noteq> ''+''" and "operation \<noteq> ''*''"
  shows "check_equal words operation len m = Inl (InvalidOperation operation)"
  using assms by (simp add: check_equal_def Let_def)

definition unsupported :: "string \<Rightarrow> int outcome set" where
  "unsupported operation = {([], Inl (InvalidOperation operation)), ([], Inr 0)}"

lemma try_values_unsupported:
  assumes "\<And>v. v \<in> set vs \<Longrightarrow>
      do_layer words operation len (m @ [(c, v)]) callback check_len \<in> unsupported operation"
  shows "try_values words operation len m callback check_len c vs \<in> unsupported operation"
  using assms
proof (induction vs)
  case Nil
  then show ?case by (simp add: unsupported_def)
next
  case (Cons v vs)
  have "do_layer words operation len (m @ [(c, v)]) callback check_len \<in> unsupported operation"
    by (rule Cons.prems) simp
  moreover have "try_values words operation len m callback check_len c vs \<in> unsupported operation"
    by (rule Cons.IH) (simp add: Cons.prems)
  ultimately show ?case
    by (auto simp: unsupported_def)
qed

lemma do_layer_unsupported:
  assumes "operation \<noteq> []" and "operation \<noteq> ''+''" and "operation \<noteq> ''*''"
  shows "do_layer words operation len m callback check_len \<in> unsupported operation"
  using assms
proof (induction operation m check_len rule: do_layer_induct [where len = len and words = words])
  case (layer operation m check_len)
  from layer.prems have op: "(if operation = [] then ''+'' else operation) = operation"
    by simp
  show ?case
  proof (cases "if len \<noteq> 0 then first_missing words len m else None")
    case None
    then show ?thesis
      using check_equal_invalid [OF layer.prems(2,3)]
      by (simp add: do_layer.simps [of words operation len m] op unsupported_def)
  next
    case (Some c)
    then have len: "len \<noteq> 0" and fm: "first_missing words len m = Some c"
      by (auto split: if_splits)
    have "try_values words operation len m callback (if check_len = 0 then len else check_len) c
        (get_possible_values c words m) \<in> unsupported operation"
    proof (rule try_values_unsupported)
      fix v
      assume "v \<in> set (get_possible_values c words m)"
      from layer.IH [OF len fm this] layer.prems
      show "do_layer words operation len (m @ [(c, v)]) callback
          (if check_len = 0 then len else check_len) \<in> unsupported operation"
        by (simp add: op)
    qed
    with Some show ?thesis
      by (simp add: do_layer.simps [of words operation len m] op)
  qed
qed

lemma solve_layers_unsupported:
  assumes "operation \<noteq> []" and "operation \<noteq> ''+''" and "operation \<noteq> ''*''"
  shows "solve_layers words operation callback len m check_len \<in> unsupported operation"
proof (induction len arbitrary: callback check_len)
  case 0
  then show ?case
    using do_layer_unsupported [OF assms]
    by (simp add: solve_layers.simps [of words operation callback 0])
next
  case (Suc len)
  then show ?case
    using do_layer_unsupported [OF assms]
    by (simp add: solve_layers.simps [of words operation callback "Suc len"])
qed

lemma candidates_nonempty:
  assumes "length m \<le> 8"
  shows "get_possible_values c words m \<noteq> []"
proof -
  have "card (snd ` set m) \<le> length m"
    by (metis card_image_le card_length le_trans List.finite_set)
  with assms have "card (snd ` set m) < card {1..9::nat}" by simp
  then have "\<not> {1..9} \<subseteq> snd ` set m"
    by (metis card_mono finite_imageI List.finite_set not_less)
  then obtain v where "v \<in> {1..9}" "v \<notin> snd ` set m" by blast
  then have "v \<in> set (get_possible_values c words m)"
    by (simp add: get_possible_values_iff)
  then show ?thesis by auto
qed

lemma do_layer_raises:
  assumes "operation \<noteq> []" and "operation \<noteq> ''+''" and "operation \<noteq> ''*''"
    and few: "card (set (concat words)) \<le> 9"
  shows "distinct (map fst m) \<Longrightarrow> set (map fst m) \<subseteq> set (concat words) \<Longrightarrow>
    do_layer words operation len m callback check_len = ([], Inl (InvalidOperation operation))"
  using assms(1-3)
proof (induction operation m check_len rule: do_layer_induct [where len = len and words = words])
  case (layer operation m check_len)
  from layer.prems have op: "(if operation = [] then ''+'' else operation) = operation"
    by simp
  show ?case
  proof (cases "if len \<noteq> 0 then first_missing words len m else None")
    case None
    then show ?thesis
      using check_equal_invalid [OF layer.prems(4,5)]
      by (simp add: do_layer.simps [of words operation len m] op)
  next
    case (Some c)
    then have len: "len \<noteq> 0" and fm: "first_missing words len m = Some c"
      by (auto split: if_splits)
    from first_missing_Some [OF fm len] have c: "c \<notin> set (map fst m)" "c \<in> set (concat words)"
      by (auto simp: has_key_def)
    then have "set (map fst m) \<subseteq> set (concat words) - {c}"
      using layer.prems(2) by auto
    then have "card (set (map fst m)) \<le> card (set (concat words) - {c})"
      by (intro card_mono) simp_all
    also have "\<dots> = card (set (concat words)) - 1"
      using c(2) by simp
    finally have "length m \<le> 8"
      using few distinct_card [OF layer.prems(1)] by simp
    from candidates_nonempty [OF this] obtain v vs where
      vs: "get_possible_values c words m = v # vs"
      by (cases "get_possible_values c words m") auto
    then have v: "v \<in> set (get_possible_values c words m)" by simp
    have "do_layer words operation len (m @ [(c, v)]) callback (if check_len = 0 then len else check_len)
        = ([], Inl (InvalidOperation operation))"
      using layer.IH [OF len fm v] layer.prems c by (simp add: op)
    then show ?thesis
      using Some by (simp add: do_layer.simps [of words operation len m] op vs)
  qed
qed

lemma solve_layers_raises:
  assumes "operation \<noteq> []" and "operation \<noteq> ''+''" and "operation \<noteq> ''*''"
    and "card (set (concat words)) \<le> 9"
  shows "solve_layers words operation callback len [] check_len
      = ([], Inl (InvalidOperation operation))"
proof (induction len arbitrary: callback check_len)
  case 0
  then show ?case
    using do_layer_raises [OF assms, of "[]"]
    by (simp add: solve_layers.simps [of words operation callback 0])
next
  case (Suc len)
  then show ?case
    using do_layer_raises [OF assms, of "[]"]
    by (simp add: solve_layers.simps [of words operation callback "Suc len"])
qed

section \<open>Two small puzzles\<close>

lemma get_possible_values_filter:
  "get_possible_values c words m =
     filter (\<lambda>v. v \<notin> set (map snd m))
       (if any words (starts_with c) then [1, 2, 3, 4, 5, 6, 7, 8, 9] else [0, 1, 2, 3, 4, 5, 6, 7, 8, 9])"
  by (simp add: get_possible_values_def Let_def rev_hash_None)

definition call_of :: "string list \<Rightarrow> string \<Rightarrow> assignment \<Rightarrow> call" where
  "call_of words operation m = (m, expression_of words operation m, pretty_expression words operation m)"

definition hits_of :: "sink \<Rightarrow> call \<Rightarrow> int" where
  "hits_of sink x = (case x of (m, e, p) \<Rightarrow> hit (sink m e p))"

lemma run_invoke:
  "run (present words operation (invoke sink)) ms =
     (map (call_of words operation) ms,
      Inr (sum_list (map (hits_of sink) (map (call_of words operation) ms))))"
  by (induction ms) (simp_all add: present_def invoke_def call_of_def hits_of_def)

lemma solve_run:
  assumes "valid_puzzle ws" and "operation = [] \<or> operation = ''+'' \<or> operation = ''*''"
  shows "solve ws operation sink =
     run (present (map toUpperCase ws) (if operation = [] then ''+'' else operation) (invoke sink))
       (accepted (map toUpperCase ws) (if operation = [] then ''+'' else operation)
          (maxlen (map toUpperCase ws)) (maxlen (map toUpperCase ws) * length ws) [])"
proof -
  note W = valid_puzzle_words [OF assms(1)]
  from assms(2) have op: "(if operation = [] then ''+'' else operation) = ''+''
      \<or> (if operation = [] then ''+'' else operation) = ''*''"
    by auto
  from W(3,4) have "maxlen (map toUpperCase ws) \<noteq> 0" "maxlen (map toUpperCase ws) * length ws \<noteq> 0"
    by auto
  from solve_layers_run [OF op W(1) this] show ?thesis
    by (simp only: solve_valid [OF assms(1)])
qed

text \<open>A + A = B has four solutions.\<close>

lemma aab_valid: "valid_puzzle [''A'', ''A'', ''B'']"
proof -
  have "length (keys_of (concat (map toUpperCase [''A'', ''A'', ''B'']))) \<le> 10"
    by (simp add: toUpperCase_def upper_char_def code_def)
  then have "card (set (concat (map toUpperCase [''A'', ''A'', ''B'']))) \<le> 10"
    by (simp only: length_keys_of)
  then show ?thesis
    by (simp add: valid_puzzle_def toUpperCase_def upper_char_def code_def not_capital_def)
qed

lemma aab_accepted:
  "accepted [''A'', ''A'', ''B''] ''+'' 1 3 [] =
     [[(CHR ''A'', 1), (CHR ''B'', 2)], [(CHR ''A'', 2), (CHR ''B'', 4)],
      [(CHR ''A'', 3), (CHR ''B'', 6)], [(CHR ''A'', 4), (CHR ''B'', 8)]]"
  by (simp add: accepted_unfold [of _ _ 1] needs_lower_def pending_def column_def has_key_def
      get_possible_values_filter starts_with_def accepts_def check_equal_def Let_def replace_all_def
      String_of.simps digit_char_def Number_def is_digit_def code_def nan_mod_def nan_eq_def
      pow10_def round_double_exact del: One_nat_def)

definition aab_calls :: "call list" where
  "aab_calls =
     [([(CHR ''A'', 1), (CHR ''B'', 2)], ''1+1=2'',
       ''  1'' @ [CHR 0x0A] @ ''+ 1'' @ [CHR 0x0A] @ ''---'' @ [CHR 0x0A] @ ''  2''),
      ([(CHR ''A'', 2), (CHR ''B'', 4)], ''2+2=4'',
       ''  2'' @ [CHR 0x0A] @ ''+ 2'' @ [CHR 0x0A] @ ''---'' @ [CHR 0x0A] @ ''  4''),
      ([(CHR ''A'', 3), (CHR ''B'', 6)], ''3+3=6'',
       ''  3'' @ [CHR 0x0A] @ ''+ 3'' @ [CHR 0x0A] @ ''---'' @ [CHR 0x0A] @ ''  6''),
      ([(CHR ''A'', 4), (CHR ''B'', 8)], ''4+4=8'',
       ''  4'' @ [CHR 0x0A] @ ''+ 4'' @ [CHR 0x0A] @ ''---'' @ [CHR 0x0A] @ ''  8'')]"

lemma aab_solve:
  assumes "operation = [] \<or> operation = ''+''"
  shows "solve [''A'', ''A'', ''B''] operation sink =
     (aab_calls, Inr (sum_list (map (hits_of sink) aab_calls)))"
proof -
  have up: "map toUpperCase [''A'', ''A'', ''B''] = [''A'', ''A'', ''B'']"
    by (simp add: toUpperCase_def upper_char_def code_def)
  have ml: "maxlen [''A'', ''A'', ''B''] = 1"
    by (simp add: maxlen_def)
  from assms have op: "(if operation = [] then ''+'' else operation) = ''+''"
    by auto
  have calls: "map (call_of [''A'', ''A'', ''B''] ''+'')
      [[(CHR ''A'', 1), (CHR ''B'', 2)], [(CHR ''A'', 2), (CHR ''B'', 4)],
       [(CHR ''A'', 3), (CHR ''B'', 6)], [(CHR ''A'', 4), (CHR ''B'', 8)]] = aab_calls"
    by (simp add: aab_calls_def call_of_def expression_of_def pretty_expression_def
        replace_all_def String_of.simps digit_char_def maxlen_def pad_def repeat_def)
  have "solve [''A'', ''A'', ''B''] operation sink =
      run (present [''A'', ''A'', ''B''] ''+'' (invoke sink)) (accepted [''A'', ''A'', ''B''] ''+'' 1 3 [])"
    using solve_run [OF aab_valid, of operation sink] assms
    unfolding up ml op by (auto simp del: One_nat_def)
  then show ?thesis
    by (simp only: aab_accepted run_invoke calls)
qed

text \<open>
  Ten one-letter words: every letter starts a word, so only the nine non-zero digits
  are candidates and the tenth letter finds none left. No column is ever checked.
\<close>

definition ten_letters :: "string list" where
  "ten_letters = [''A'', ''B'', ''C'', ''D'', ''E'', ''F'', ''G'', ''H'', ''I'', ''J'']"

lemma try_values_nothing:
  assumes "\<And>v. v \<in> set vs \<Longrightarrow>
      do_layer words operation len (m @ [(c, v)]) callback check_len = ([], Inr 0)"
  shows "try_values words operation len m callback check_len c vs = ([], Inr 0)"
  using assms by (induction vs) simp_all

lemma ten_letters_column: "column ten_letters 1 = ''ABCDEFGHIJ''"
  by (simp add: column_def ten_letters_def)

lemma ten_letters_first: "c \<in> set ''ABCDEFGHIJ'' \<Longrightarrow> any ten_letters (starts_with c)"
  by (auto simp: ten_letters_def starts_with_def)

lemma ten_letters_nothing:
  assumes "operation \<noteq> []"
  shows "distinct (map snd m) \<Longrightarrow> snd ` set m \<subseteq> {1..9} \<Longrightarrow>
    do_layer ten_letters operation 1 m callback check_len = ([], Inr 0)"
  using assms
proof (induction operation m check_len rule: do_layer_induct [where len = 1 and words = ten_letters])
  case (layer operation m check_len)
  from layer.prems have op: "(if operation = [] then ''+'' else operation) = operation"
    by simp
  have "card (snd ` set m) \<le> card {1..9::nat}"
    using layer.prems(2) by (intro card_mono) simp_all
  then have short: "length m \<le> 9"
    using distinct_card [OF layer.prems(1)] by simp
  show ?case
  proof (cases "first_missing ten_letters 1 m")
    case None
    then have "\<forall>c\<in>set (column ten_letters 1). has_key m c"
      by (simp add: first_missing_find find_None_iff del: One_nat_def)
    then have "set ''ABCDEFGHIJ'' \<subseteq> set (map fst m)"
      unfolding ten_letters_column has_key_def by blast
    then have "card (set ''ABCDEFGHIJ'') \<le> card (set (map fst m))"
      by (intro card_mono) simp_all
    moreover have "card (set ''ABCDEFGHIJ'') = 10"
      by simp
    moreover have "card (set (map fst m)) \<le> length m"
      using card_length [of "map fst m"] by simp
    ultimately show ?thesis
      using short by simp
  next
    case (Some c)
    then have "c \<in> set (column ten_letters 1)"
      by (auto simp: first_missing_find find_Some_iff)
    then have first: "any ten_letters (starts_with c)"
      by (simp only: ten_letters_column ten_letters_first)
    have "try_values ten_letters operation 1 m callback (if check_len = 0 then 1 else check_len) c
        (get_possible_values c ten_letters m) = ([], Inr 0)"
    proof (rule try_values_nothing)
      fix v
      assume v: "v \<in> set (get_possible_values c ten_letters m)"
      with first have "v \<notin> snd ` set m" "v \<in> {1..9}"
        by (auto simp: get_possible_values_iff)
      with layer.prems have "distinct (map snd (m @ [(c, v)]))" "snd ` set (m @ [(c, v)]) \<subseteq> {1..9}"
        by auto
      from layer.IH [OF _ Some v this] layer.prems(3)
      show "do_layer ten_letters operation 1 (m @ [(c, v)]) callback
          (if check_len = 0 then 1 else check_len) = ([], Inr 0)"
        by (simp add: op)
    qed
    with Some show ?thesis
      by (subst do_layer.simps) (simp add: op del: One_nat_def)
  qed
qed

lemma ten_letters_valid: "valid_puzzle ten_letters"
proof -
  have up: "map toUpperCase ten_letters = ten_letters"
    by (simp add: ten_letters_def toUpperCase_def upper_char_def code_def)
  have "length (keys_of (concat ten_letters)) \<le> 10"
    by (simp add: ten_letters_def)
  then have "card (set (concat (map toUpperCase ten_letters))) \<le> 10"
    by (simp only: length_keys_of up)
  moreover have "list_all (\<lambda>w. list_all (\<lambda>c. \<not> not_capital c) (toUpperCase w)) ten_letters"
    by (simp add: ten_letters_def toUpperCase_def upper_char_def code_def not_capital_def)
  ultimately show ?thesis
    by (simp add: valid_puzzle_def ten_letters_def)
qed

lemma ten_letters_solve:
  assumes "operation \<noteq> []"
  shows "solve ten_letters operation sink = ([], Inr 0)"
proof -
  have up: "map toUpperCase ten_letters = ten_letters"
    by (simp add: ten_letters_def toUpperCase_def upper_char_def code_def)
  have ml: "maxlen ten_letters = 1"
    by (simp add: ten_letters_def maxlen_def)
  have nl: "\<not> needs_lower ten_letters 1 []"
    by (simp add: needs_lower_def)
  have "solve ten_letters operation sink =
      solve_layers ten_letters operation (invoke sink) 1 [] (1 * length ten_letters)"
    using solve_valid [OF ten_letters_valid, of operation sink] assms
    by (simp only: up ml if_False)
  also have "\<dots> = do_layer ten_letters operation 1 [] (invoke sink) (1 * length ten_letters)"
    using nl by (subst solve_layers.simps) (simp del: One_nat_def)
  also have "\<dots> = ([], Inr 0)"
    by (rule ten_letters_nothing [OF assms]) simp_all
  finally show ?thesis .
qed

section \<open>A product beyond 53 bits\<close>

text \<open>
  Five times the word IDFI, multiplied, against a result word of twenty letters. With
  I=8, D=3, F=5 the operand is 8358, and \<open>8358 ^ 5 = 40786067536627740768\<close> needs 66
  bits: the fifth multiplication rounds it to 40786067536627744768, which is what the
  result word spells with E=4, A=0, H=7, G=6, C=2.
\<close>

definition rounding_puzzle :: "string list" where
  "rounding_puzzle = [''IDFI'', ''IDFI'', ''IDFI'', ''IDFI'', ''IDFI'', ''EAHIGAGHFDGGCHHEEHGI'']"

definition rounding_path :: assignment where
  "rounding_path = [(CHR ''I'', 8), (CHR ''F'', 5), (CHR ''G'', 6), (CHR ''D'', 3), (CHR ''H'', 7), (CHR ''E'', 4), (CHR ''C'', 2), (CHR ''A'', 0)]"

lemma bit_length_eval: "bit_length 0 = 0" "n \<noteq> 0 \<Longrightarrow> bit_length n = bit_length (n div 2) + 1"
  by (subst bit_length.simps, simp)+

lemmas check_eval = accepts_def check_equal_def Let_def rounding_puzzle_def
  replace_all_def String_of.simps digit_char_def Number_def is_digit_def code_def
  nan_mod_def nan_eq_def nan_mult_def pow10_def round_double_def bit_length_eval

text \<open>The checks along the search path: the columns on their own width, the last on 120.\<close>

lemma rounding_checks:
  "accepts rounding_puzzle ''*'' 1 [(CHR ''I'', 8)]"
  "accepts rounding_puzzle ''*'' 2 [(CHR ''I'', 8), (CHR ''F'', 5), (CHR ''G'', 6)]"
  "accepts rounding_puzzle ''*'' 3 [(CHR ''I'', 8), (CHR ''F'', 5), (CHR ''G'', 6), (CHR ''D'', 3), (CHR ''H'', 7)]"
  "accepts rounding_puzzle ''*'' 4 [(CHR ''I'', 8), (CHR ''F'', 5), (CHR ''G'', 6), (CHR ''D'', 3), (CHR ''H'', 7), (CHR ''E'', 4)]"
  "accepts rounding_puzzle ''*'' 5 [(CHR ''I'', 8), (CHR ''F'', 5), (CHR ''G'', 6), (CHR ''D'', 3), (CHR ''H'', 7), (CHR ''E'', 4)]"
  "accepts rounding_puzzle ''*'' 6 [(CHR ''I'', 8), (CHR ''F'', 5), (CHR ''G'', 6), (CHR ''D'', 3), (CHR ''H'', 7), (CHR ''E'', 4)]"
  "accepts rounding_puzzle ''*'' 7 [(CHR ''I'', 8), (CHR ''F'', 5), (CHR ''G'', 6), (CHR ''D'', 3), (CHR ''H'', 7), (CHR ''E'', 4)]"
  "accepts rounding_puzzle ''*'' 8 [(CHR ''I'', 8), (CHR ''F'', 5), (CHR ''G'', 6), (CHR ''D'', 3), (CHR ''H'', 7), (CHR ''E'', 4), (CHR ''C'', 2)]"
  "accepts rounding_puzzle ''*'' 9 [(CHR ''I'', 8), (CHR ''F'', 5), (CHR ''G'', 6), (CHR ''D'', 3), (CHR ''H'', 7), (CHR ''E'', 4), (CHR ''C'', 2)]"
  "accepts rounding_puzzle ''*'' 10 [(CHR ''I'', 8), (CHR ''F'', 5), (CHR ''G'', 6), (CHR ''D'', 3), (CHR ''H'', 7), (CHR ''E'', 4), (CHR ''C'', 2)]"
  "accepts rounding_puzzle ''*'' 11 [(CHR ''I'', 8), (CHR ''F'', 5), (CHR ''G'', 6), (CHR ''D'', 3), (CHR ''H'', 7), (CHR ''E'', 4), (CHR ''C'', 2)]"
  "accepts rounding_puzzle ''*'' 12 [(CHR ''I'', 8), (CHR ''F'', 5), (CHR ''G'', 6), (CHR ''D'', 3), (CHR ''H'', 7), (CHR ''E'', 4), (CHR ''C'', 2)]"
  "accepts rounding_puzzle ''*'' 13 [(CHR ''I'', 8), (CHR ''F'', 5), (CHR ''G'', 6), (CHR ''D'', 3), (CHR ''H'', 7), (CHR ''E'', 4), (CHR ''C'', 2)]"
  "accepts rounding_puzzle ''*'' 14 [(CHR ''I'', 8), (CHR ''F'', 5), (CHR ''G'', 6), (CHR ''D'', 3), (CHR ''H'', 7), (CHR ''E'', 4), (CHR ''C'', 2)]"
  "accepts rounding_puzzle ''*'' 15 [(CHR ''I'', 8), (CHR ''F'', 5), (CHR ''G'', 6), (CHR ''D'', 3), (CHR ''H'', 7), (CHR ''E'', 4), (CHR ''C'', 2), (CHR ''A'', 0)]"
  "accepts rounding_puzzle ''*'' 16 [(CHR ''I'', 8), (CHR ''F'', 5), (CHR ''G'', 6), (CHR ''D'', 3), (CHR ''H'', 7), (CHR ''E'', 4), (CHR ''C'', 2), (CHR ''A'', 0)]"
  "accepts rounding_puzzle ''*'' 17 [(CHR ''I'', 8), (CHR ''F'', 5), (CHR ''G'', 6), (CHR ''D'', 3), (CHR ''H'', 7), (CHR ''E'', 4), (CHR ''C'', 2), (CHR ''A'', 0)]"
  "accepts rounding_puzzle ''*'' 18 [(CHR ''I'', 8), (CHR ''F'', 5), (CHR ''G'', 6), (CHR ''D'', 3), (CHR ''H'', 7), (CHR ''E'', 4), (CHR ''C'', 2), (CHR ''A'', 0)]"
  "accepts rounding_puzzle ''*'' 19 [(CHR ''I'', 8), (CHR ''F'', 5), (CHR ''G'', 6), (CHR ''D'', 3), (CHR ''H'', 7), (CHR ''E'', 4), (CHR ''C'', 2), (CHR ''A'', 0)]"
  "accepts rounding_puzzle ''*'' 120 [(CHR ''I'', 8), (CHR ''F'', 5), (CHR ''G'', 6), (CHR ''D'', 3), (CHR ''H'', 7), (CHR ''E'', 4), (CHR ''C'', 2), (CHR ''A'', 0)]"
  by (simp_all add: check_eval)

text \<open>An assignment is found by binding the pending letters to candidates that pass the check.\<close>

fun candidates_ok :: "string list \<Rightarrow> assignment \<Rightarrow> assignment \<Rightarrow> bool" where
  "candidates_ok words m [] = True"
| "candidates_ok words m ((c, v) # bs) =
     (v \<in> set (get_possible_values c words m) \<and> candidates_ok words (m @ [(c, v)]) bs)"

lemma bind_all_member:
  "candidates_ok words m bs \<Longrightarrow> ok (m @ bs) \<Longrightarrow> m @ bs \<in> set (bind_all words ok (map fst bs) m)"
proof (induction bs arbitrary: m)
  case Nil
  then show ?case by simp
next
  case (Cons b bs)
  obtain c v where b: "b = (c, v)" by (cases b)
  from Cons.prems have v: "v \<in> set (get_possible_values c words m)"
    and rest: "candidates_ok words (m @ [(c, v)]) bs" and ok: "ok ((m @ [(c, v)]) @ bs)"
    by (simp_all add: b)
  from Cons.IH [OF rest ok] v show ?case
    by (auto simp: b)
qed

lemma accepted_first:
  assumes "\<not> needs_lower words len m0"
    and "m \<in> set (bind_all words (accepts words operation check_len) (pending words len m0) m0)"
  shows "m \<in> set (accepted words operation len check_len m0)"
  using assms by (simp add: accepted_unfold [of words operation len])

lemma accepted_next:
  assumes "needs_lower words len m0"
    and "sub \<in> set (accepted words operation (len - 1) (len - 1) m0)"
    and "m \<in> set (bind_all words (accepts words operation check_len) (pending words len sub) sub)"
  shows "m \<in> set (accepted words operation len check_len m0)"
proof -
  from needs_lower_ge2 [OF assms(1)] have "len \<noteq> 0" by simp
  with assms show ?thesis
    by (subst accepted_unfold) auto
qed

lemma rounding_needs_lower:
  assumes "2 \<le> len" and "len \<le> 20"
  shows "needs_lower rounding_puzzle len []"
proof -
  from assms(1) have "1 \<in> set [1..<len]" by simp
  moreover have "length ''EAHIGAGHFDGGCHHEEHGI'' > len - 1" using assms(2) by simp
  ultimately show ?thesis
    unfolding needs_lower_def list_ex_iff rounding_puzzle_def has_key_def
    by (intro bexI [of _ 1] bexI [of _ "''EAHIGAGHFDGGCHHEEHGI''"]) simp_all
qed

lemma rounding_first_letters:
  "any rounding_puzzle (starts_with c) = (c = CHR ''I'' \<or> c = CHR ''E'')"
  by (auto simp: rounding_puzzle_def starts_with_def)

lemma rounding_level_1:
  "[(CHR ''I'', 8)] \<in> set (accepted rounding_puzzle ''*'' 1 1 [])"
proof (rule accepted_first)
  show "\<not> needs_lower rounding_puzzle 1 []" by (simp add: needs_lower_def)
  have "candidates_ok rounding_puzzle [] [(CHR ''I'', 8)]"
    by (simp add: get_possible_values_filter rounding_first_letters)
  moreover have "accepts rounding_puzzle ''*'' 1 ([] @ [(CHR ''I'', 8)])"
    using rounding_checks(1) by simp
  ultimately have "[] @ [(CHR ''I'', 8)] \<in> set (bind_all rounding_puzzle (accepts rounding_puzzle ''*'' 1) (map fst ([(CHR ''I'', 8)] :: assignment)) [])"
    by (rule bind_all_member)
  moreover have "pending rounding_puzzle 1 [] = map fst ([(CHR ''I'', 8)] :: assignment)"
    by (simp add: pending_def column_def rounding_puzzle_def has_key_def)
  ultimately show "[(CHR ''I'', 8)] \<in> set (bind_all rounding_puzzle (accepts rounding_puzzle ''*'' 1) (pending rounding_puzzle 1 []) [])"
    by simp
qed

lemma rounding_level_2:
  "[(CHR ''I'', 8), (CHR ''F'', 5), (CHR ''G'', 6)] \<in> set (accepted rounding_puzzle ''*'' 2 2 [])"
proof (rule accepted_next [where sub = "[(CHR ''I'', 8)]"])
  show "needs_lower rounding_puzzle 2 []" by (rule rounding_needs_lower) simp_all
  show "[(CHR ''I'', 8)] \<in> set (accepted rounding_puzzle ''*'' (2 - 1) (2 - 1) [])"
    using rounding_level_1 by simp
  have "candidates_ok rounding_puzzle [(CHR ''I'', 8)] [(CHR ''F'', 5), (CHR ''G'', 6)]"
    by (simp add: get_possible_values_filter rounding_first_letters)
  moreover have "accepts rounding_puzzle ''*'' 2 ([(CHR ''I'', 8)] @ [(CHR ''F'', 5), (CHR ''G'', 6)])"
    using rounding_checks(2) by simp
  ultimately have "[(CHR ''I'', 8)] @ [(CHR ''F'', 5), (CHR ''G'', 6)] \<in> set (bind_all rounding_puzzle (accepts rounding_puzzle ''*'' 2) (map fst ([(CHR ''F'', 5), (CHR ''G'', 6)] :: assignment)) [(CHR ''I'', 8)])"
    by (rule bind_all_member)
  moreover have "pending rounding_puzzle 2 [(CHR ''I'', 8)] = map fst ([(CHR ''F'', 5), (CHR ''G'', 6)] :: assignment)"
    by (simp add: pending_def column_def rounding_puzzle_def has_key_def)
  ultimately show "[(CHR ''I'', 8), (CHR ''F'', 5), (CHR ''G'', 6)] \<in> set (bind_all rounding_puzzle (accepts rounding_puzzle ''*'' 2) (pending rounding_puzzle 2 [(CHR ''I'', 8)]) [(CHR ''I'', 8)])"
    by simp
qed

lemma rounding_level_3:
  "[(CHR ''I'', 8), (CHR ''F'', 5), (CHR ''G'', 6), (CHR ''D'', 3), (CHR ''H'', 7)] \<in> set (accepted rounding_puzzle ''*'' 3 3 [])"
proof (rule accepted_next [where sub = "[(CHR ''I'', 8), (CHR ''F'', 5), (CHR ''G'', 6)]"])
  show "needs_lower rounding_puzzle 3 []" by (rule rounding_needs_lower) simp_all
  show "[(CHR ''I'', 8), (CHR ''F'', 5), (CHR ''G'', 6)] \<in> set (accepted rounding_puzzle ''*'' (3 - 1) (3 - 1) [])"
    using rounding_level_2 by simp
  have "candidates_ok rounding_puzzle [(CHR ''I'', 8), (CHR ''F'', 5), (CHR ''G'', 6)] [(CHR ''D'', 3), (CHR ''H'', 7)]"
    by (simp add: get_possible_values_filter rounding_first_letters)
  moreover have "accepts rounding_puzzle ''*'' 3 ([(CHR ''I'', 8), (CHR ''F'', 5), (CHR ''G'', 6)] @ [(CHR ''D'', 3), (CHR ''H'', 7)])"
    using rounding_checks(3) by simp
  ultimately have "[(CHR ''I'', 8), (CHR ''F'', 5), (CHR ''G'', 6)] @ [(CHR ''D'', 3), (CHR ''H'', 7)] \<in> set (bind_all rounding_puzzle (accepts rounding_puzzle ''*'' 3) (map fst ([(CHR ''D'', 3), (CHR ''H'', 7)] :: assignment)) [(CHR ''I'', 8), (CHR ''F'', 5), (CHR ''G'', 6)])"
    by (rule bind_all_member)
  moreover have "pending rounding_puzzle 3 [(CHR ''I'', 8), (CHR ''F'', 5), (CHR ''G'', 6)] = map fst ([(CHR ''D'', 3), (CHR ''H'', 7)] :: assignment)"
    by (simp add: pending_def column_def rounding_puzzle_def has_key_def)
  ultimately show "[(CHR ''I'', 8), (CHR ''F'', 5), (CHR ''G'', 6), (CHR ''D'', 3), (CHR ''H'', 7)] \<in> set (bind_all rounding_puzzle (accepts rounding_puzzle ''*'' 3) (pending rounding_puzzle 3 [(CHR ''I'', 8), (CHR ''F'', 5), (CHR ''G'', 6)]) [(CHR ''I'', 8), (CHR ''F'', 5), (CHR ''G'', 6)])"
    by simp
qed

lemma rounding_level_4:
  "[(CHR ''I'', 8), (CHR ''F'', 5), (CHR ''G'', 6), (CHR ''D'', 3), (CHR ''H'', 7), (CHR ''E'', 4)] \<in> set (accepted rounding_puzzle ''*'' 4 4 [])"
proof (rule accepted_next [where sub = "[(CHR ''I'', 8), (CHR ''F'', 5), (CHR ''G'', 6), (CHR ''D'', 3), (CHR ''H'', 7)]"])
  show "needs_lower rounding_puzzle 4 []" by (rule rounding_needs_lower) simp_all
  show "[(CHR ''I'', 8), (CHR ''F'', 5), (CHR ''G'', 6), (CHR ''D'', 3), (CHR ''H'', 7)] \<in> set (accepted rounding_puzzle ''*'' (4 - 1) (4 - 1) [])"
    using rounding_level_3 by simp
  have "candidates_ok rounding_puzzle [(CHR ''I'', 8), (CHR ''F'', 5), (CHR ''G'', 6), (CHR ''D'', 3), (CHR ''H'', 7)] [(CHR ''E'', 4)]"
    by (simp add: get_possible_values_filter rounding_first_letters)
  moreover have "accepts rounding_puzzle ''*'' 4 ([(CHR ''I'', 8), (CHR ''F'', 5), (CHR ''G'', 6), (CHR ''D'', 3), (CHR ''H'', 7)] @ [(CHR ''E'', 4)])"
    using rounding_checks(4) by simp
  ultimately have "[(CHR ''I'', 8), (CHR ''F'', 5), (CHR ''G'', 6), (CHR ''D'', 3), (CHR ''H'', 7)] @ [(CHR ''E'', 4)] \<in> set (bind_all rounding_puzzle (accepts rounding_puzzle ''*'' 4) (map fst ([(CHR ''E'', 4)] :: assignment)) [(CHR ''I'', 8), (CHR ''F'', 5), (CHR ''G'', 6), (CHR ''D'', 3), (CHR ''H'', 7)])"
    by (rule bind_all_member)
  moreover have "pending rounding_puzzle 4 [(CHR ''I'', 8), (CHR ''F'', 5), (CHR ''G'', 6), (CHR ''D'', 3), (CHR ''H'', 7)] = map fst ([(CHR ''E'', 4)] :: assignment)"
    by (simp add: pending_def column_def rounding_puzzle_def has_key_def)
  ultimately show "[(CHR ''I'', 8), (CHR ''F'', 5), (CHR ''G'', 6), (CHR ''D'', 3), (CHR ''H'', 7), (CHR ''E'', 4)] \<in> set (bind_all rounding_puzzle (accepts rounding_puzzle ''*'' 4) (pending rounding_puzzle 4 [(CHR ''I'', 8), (CHR ''F'', 5), (CHR ''G'', 6), (CHR ''D'', 3), (CHR ''H'', 7)]) [(CHR ''I'', 8), (CHR ''F'', 5), (CHR ''G'', 6), (CHR ''D'', 3), (CHR ''H'', 7)])"
    by simp
qed

lemma rounding_level_5:
  "[(CHR ''I'', 8), (CHR ''F'', 5), (CHR ''G'', 6), (CHR ''D'', 3), (CHR ''H'', 7), (CHR ''E'', 4)] \<in> set (accepted rounding_puzzle ''*'' 5 5 [])"
proof (rule accepted_next [where sub = "[(CHR ''I'', 8), (CHR ''F'', 5), (CHR ''G'', 6), (CHR ''D'', 3), (CHR ''H'', 7), (CHR ''E'', 4)]"])
  show "needs_lower rounding_puzzle 5 []" by (rule rounding_needs_lower) simp_all
  show "[(CHR ''I'', 8), (CHR ''F'', 5), (CHR ''G'', 6), (CHR ''D'', 3), (CHR ''H'', 7), (CHR ''E'', 4)] \<in> set (accepted rounding_puzzle ''*'' (5 - 1) (5 - 1) [])"
    using rounding_level_4 by simp
  have "candidates_ok rounding_puzzle [(CHR ''I'', 8), (CHR ''F'', 5), (CHR ''G'', 6), (CHR ''D'', 3), (CHR ''H'', 7), (CHR ''E'', 4)] []"
    by (simp add: get_possible_values_filter rounding_first_letters)
  moreover have "accepts rounding_puzzle ''*'' 5 ([(CHR ''I'', 8), (CHR ''F'', 5), (CHR ''G'', 6), (CHR ''D'', 3), (CHR ''H'', 7), (CHR ''E'', 4)] @ [])"
    using rounding_checks(5) by simp
  ultimately have "[(CHR ''I'', 8), (CHR ''F'', 5), (CHR ''G'', 6), (CHR ''D'', 3), (CHR ''H'', 7), (CHR ''E'', 4)] @ [] \<in> set (bind_all rounding_puzzle (accepts rounding_puzzle ''*'' 5) (map fst ([] :: assignment)) [(CHR ''I'', 8), (CHR ''F'', 5), (CHR ''G'', 6), (CHR ''D'', 3), (CHR ''H'', 7), (CHR ''E'', 4)])"
    by (rule bind_all_member)
  moreover have "pending rounding_puzzle 5 [(CHR ''I'', 8), (CHR ''F'', 5), (CHR ''G'', 6), (CHR ''D'', 3), (CHR ''H'', 7), (CHR ''E'', 4)] = map fst ([] :: assignment)"
    by (simp add: pending_def column_def rounding_puzzle_def has_key_def)
  ultimately show "[(CHR ''I'', 8), (CHR ''F'', 5), (CHR ''G'', 6), (CHR ''D'', 3), (CHR ''H'', 7), (CHR ''E'', 4)] \<in> set (bind_all rounding_puzzle (accepts rounding_puzzle ''*'' 5) (pending rounding_puzzle 5 [(CHR ''I'', 8), (CHR ''F'', 5), (CHR ''G'', 6), (CHR ''D'', 3), (CHR ''H'', 7), (CHR ''E'', 4)]) [(CHR ''I'', 8), (CHR ''F'', 5), (CHR ''G'', 6), (CHR ''D'', 3), (CHR ''H'', 7), (CHR ''E'', 4)])"
    by simp
qed

lemma rounding_level_6:
  "[(CHR ''I'', 8), (CHR ''F'', 5), (CHR ''G'', 6), (CHR ''D'', 3), (CHR ''H'', 7), (CHR ''E'', 4)] \<in> set (accepted rounding_puzzle ''*'' 6 6 [])"
proof (rule accepted_next [where sub = "[(CHR ''I'', 8), (CHR ''F'', 5), (CHR ''G'', 6), (CHR ''D'', 3), (CHR ''H'', 7), (CHR ''E'', 4)]"])
  show "needs_lower rounding_puzzle 6 []" by (rule rounding_needs_lower) simp_all
  show "[(CHR ''I'', 8), (CHR ''F'', 5), (CHR ''G'', 6), (CHR ''D'', 3), (CHR ''H'', 7), (CHR ''E'', 4)] \<in> set (accepted rounding_puzzle ''*'' (6 - 1) (6 - 1) [])"
    using rounding_level_5 by simp
  have "candidates_ok rounding_puzzle [(CHR ''I'', 8), (CHR ''F'', 5), (CHR ''G'', 6), (CHR ''D'', 3), (CHR ''H'', 7), (CHR ''E'', 4)] []"
    by (simp add: get_possible_values_filter rounding_first_letters)
  moreover have "accepts rounding_puzzle ''*'' 6 ([(CHR ''I'', 8), (CHR ''F'', 5), (CHR ''G'', 6), (CHR ''D'', 3), (CHR ''H'', 7), (CHR ''E'', 4)] @ [])"
    using rounding_checks(6) by simp
  ultimately have "[(CHR ''I'', 8), (CHR ''F'', 5), (CHR ''G'', 6), (CHR ''D'', 3), (CHR ''H'', 7), (CHR ''E'', 4)] @ [] \<in> set (bind_all rounding_puzzle (accepts rounding_puzzle ''*'' 6) (map fst ([] :: assignment)) [(CHR ''I'', 8), (CHR ''F'', 5), (CHR ''G'', 6), (CHR ''D'', 3), (CHR ''H'', 7), (CHR ''E'', 4)])"
    by (rule bind_all_member)
  moreover have "pending rounding_puzzle 6 [(CHR ''I'', 8), (CHR ''F'', 5), (CHR ''G'', 6), (CHR ''D'', 3), (CHR ''H'', 7), (CHR ''E'', 4)] = map fst ([] :: assignment)"
    by (simp add: pending_def column_def rounding_puzzle_def has_key_def)
  ultimately show "[(CHR ''I'', 8), (CHR ''F'', 5), (CHR ''G'', 6), (CHR ''D'', 3), (CHR ''H'', 7), (CHR ''E'', 4)] \<in> set (bind_all rounding_puzzle (accepts rounding_puzzle ''*'' 6) (pending rounding_puzzle 6 [(CHR ''I'', 8), (CHR ''F'', 5), (CHR ''G'', 6), (CHR ''D'', 3), (CHR ''H'', 7), (CHR ''E'', 4)]) [(CHR ''I'', 8), (CHR ''F'', 5), (CHR ''G'', 6), (CHR ''D'', 3), (CHR ''H'', 7), (CHR ''E'', 4)])"
    by simp
qed

lemma rounding_level_7:
  "[(CHR ''I'', 8), (CHR ''F'', 5), (CHR ''G'', 6), (CHR ''D'', 3), (CHR ''H'', 7), (CHR ''E'', 4)] \<in> set (accepted rounding_puzzle ''*'' 7 7 [])"
proof (rule accepted_next [where sub = "[(CHR ''I'', 8), (CHR ''F'', 5), (CHR ''G'', 6), (CHR ''D'', 3), (CHR ''H'', 7), (CHR ''E'', 4)]"])
  show "needs_lower rounding_puzzle 7 []" by (rule rounding_needs_lower) simp_all
  show "[(CHR ''I'', 8), (CHR ''F'', 5), (CHR ''G'', 6), (CHR ''D'', 3), (CHR ''H'', 7), (CHR ''E'', 4)] \<in> set (accepted rounding_puzzle ''*'' (7 - 1) (7 - 1) [])"
    using rounding_level_6 by simp
  have "candidates_ok rounding_puzzle [(CHR ''I'', 8), (CHR ''F'', 5), (CHR ''G'', 6), (CHR ''D'', 3), (CHR ''H'', 7), (CHR ''E'', 4)] []"
    by (simp add: get_possible_values_filter rounding_first_letters)
  moreover have "accepts rounding_puzzle ''*'' 7 ([(CHR ''I'', 8), (CHR ''F'', 5), (CHR ''G'', 6), (CHR ''D'', 3), (CHR ''H'', 7), (CHR ''E'', 4)] @ [])"
    using rounding_checks(7) by simp
  ultimately have "[(CHR ''I'', 8), (CHR ''F'', 5), (CHR ''G'', 6), (CHR ''D'', 3), (CHR ''H'', 7), (CHR ''E'', 4)] @ [] \<in> set (bind_all rounding_puzzle (accepts rounding_puzzle ''*'' 7) (map fst ([] :: assignment)) [(CHR ''I'', 8), (CHR ''F'', 5), (CHR ''G'', 6), (CHR ''D'', 3), (CHR ''H'', 7), (CHR ''E'', 4)])"
    by (rule bind_all_member)
  moreover have "pending rounding_puzzle 7 [(CHR ''I'', 8), (CHR ''F'', 5), (CHR ''G'', 6), (CHR ''D'', 3), (CHR ''H'', 7), (CHR ''E'', 4)] = map fst ([] :: assignment)"
    by (simp add: pending_def column_def rounding_puzzle_def has_key_def)
  ultimately show "[(CHR ''I'', 8), (CHR ''F'', 5), (CHR ''G'', 6), (CHR ''D'', 3), (CHR ''H'', 7), (CHR ''E'', 4)] \<in> set (bind_all rounding_puzzle (accepts rounding_puzzle ''*'' 7) (pending rounding_puzzle 7 [(CHR ''I'', 8), (CHR ''F'', 5), (CHR ''G'', 6), (CHR ''D'', 3), (CHR ''H'', 7), (CHR ''E'', 4)]) [(CHR ''I'', 8), (CHR ''F'', 5), (CHR ''G'', 6), (CHR ''D'', 3), (CHR ''H'', 7), (CHR ''E'', 4)])"
    by simp
qed

lemma rounding_level_8:
  "[(CHR ''I'', 8), (CHR ''F'', 5), (CHR ''G'', 6), (CHR ''D'', 3), (CHR ''H'', 7), (CHR ''E'', 4), (CHR ''C'', 2)] \<in> set (accepted rounding_puzzle ''*'' 8 8 [])"
proof (rule accepted_next [where sub = "[(CHR ''I'', 8), (CHR ''F'', 5), (CHR ''G'', 6), (CHR ''D'', 3), (CHR ''H'', 7), (CHR ''E'', 4)]"])
  show "needs_lower rounding_puzzle 8 []" by (rule rounding_needs_lower) simp_all
  show "[(CHR ''I'', 8), (CHR ''F'', 5), (CHR ''G'', 6), (CHR ''D'', 3), (CHR ''H'', 7), (CHR ''E'', 4)] \<in> set (accepted rounding_puzzle ''*'' (8 - 1) (8 - 1) [])"
    using rounding_level_7 by simp
  have "candidates_ok rounding_puzzle [(CHR ''I'', 8), (CHR ''F'', 5), (CHR ''G'', 6), (CHR ''D'', 3), (CHR ''H'', 7), (CHR ''E'', 4)] [(CHR ''C'', 2)]"
    by (simp add: get_possible_values_filter rounding_first_letters)
  moreover have "accepts rounding_puzzle ''*'' 8 ([(CHR ''I'', 8), (CHR ''F'', 5), (CHR ''G'', 6), (CHR ''D'', 3), (CHR ''H'', 7), (CHR ''E'', 4)] @ [(CHR ''C'', 2)])"
    using rounding_checks(8) by simp
  ultimately have "[(CHR ''I'', 8), (CHR ''F'', 5), (CHR ''G'', 6), (CHR ''D'', 3), (CHR ''H'', 7), (CHR ''E'', 4)] @ [(CHR ''C'', 2)] \<in> set (bind_all rounding_puzzle (accepts rounding_puzzle ''*'' 8) (map fst ([(CHR ''C'', 2)] :: assignment)) [(CHR ''I'', 8), (CHR ''F'', 5), (CHR ''G'', 6), (CHR ''D'', 3), (CHR ''H'', 7), (CHR ''E'', 4)])"
    by (rule bind_all_member)
  moreover have "pending rounding_puzzle 8 [(CHR ''I'', 8), (CHR ''F'', 5), (CHR ''G'', 6), (CHR ''D'', 3), (CHR ''H'', 7), (CHR ''E'', 4)] = map fst ([(CHR ''C'', 2)] :: assignment)"
    by (simp add: pending_def column_def rounding_puzzle_def has_key_def)
  ultimately show "[(CHR ''I'', 8), (CHR ''F'', 5), (CHR ''G'', 6), (CHR ''D'', 3), (CHR ''H'', 7), (CHR ''E'', 4), (CHR ''C'', 2)] \<in> set (bind_all rounding_puzzle (accepts rounding_puzzle ''*'' 8) (pending rounding_puzzle 8 [(CHR ''I'', 8), (CHR ''F'', 5), (CHR ''G'', 6), (CHR ''D'', 3), (CHR ''H'', 7), (CHR ''E'', 4)]) [(CHR ''I'', 8), (CHR ''F'', 5), (CHR ''G'', 6), (CHR ''D'', 3), (CHR ''H'', 7), (CHR ''E'', 4)])"
    by simp
qed

lemma rounding_level_9:
  "[(CHR ''I'', 8), (CHR ''F'', 5), (CHR ''G'', 6), (CHR ''D'', 3), (CHR ''H'', 7), (CHR ''E'', 4), (CHR ''C'', 2)] \<in> set (accepted rounding_puzzle ''*'' 9 9 [])"
proof (rule accepted_next [where sub = "[(CHR ''I'', 8), (CHR ''F'', 5), (CHR ''G'', 6), (CHR ''D'', 3), (CHR ''H'', 7), (CHR ''E'', 4), (CHR ''C'', 2)]"])
  show "needs_lower rounding_puzzle 9 []" by (rule rounding_needs_lower) simp_all
  show "[(CHR ''I'', 8), (CHR ''F'', 5), (CHR ''G'', 6), (CHR ''D'', 3), (CHR ''H'', 7), (CHR ''E'', 4), (CHR ''C'', 2)] \<in> set (accepted rounding_puzzle ''*'' (9 - 1) (9 - 1) [])"
    using rounding_level_8 by simp
  have "candidates_ok rounding_puzzle [(CHR ''I'', 8), (CHR ''F'', 5), (CHR ''G'', 6), (CHR ''D'', 3), (CHR ''H'', 7), (CHR ''E'', 4), (CHR ''C'', 2)] []"
    by (simp add: get_possible_values_filter rounding_first_letters)
  moreover have "accepts rounding_puzzle ''*'' 9 ([(CHR ''I'', 8), (CHR ''F'', 5), (CHR ''G'', 6), (CHR ''D'', 3), (CHR ''H'', 7), (CHR ''E'', 4), (CHR ''C'', 2)] @ [])"
    using rounding_checks(9) by simp
  ultimately have "[(CHR ''I'', 8), (CHR ''F'', 5), (CHR ''G'', 6), (CHR ''D'', 3), (CHR ''H'', 7), (CHR ''E'', 4), (CHR ''C'', 2)] @ [] \<in> set (bind_all rounding_puzzle (accepts rounding_puzzle ''*'' 9) (map fst ([] :: assignment)) [(CHR ''I'', 8), (CHR ''F'', 5), (CHR ''G'', 6), (CHR ''D'', 3), (CHR ''H'', 7), (CHR ''E'', 4), (CHR ''C'', 2)])"
    by (rule bind_all_member)
  moreover have "pending rounding_puzzle 9 [(CHR ''I'', 8), (CHR ''F'', 5), (CHR ''G'', 6), (CHR ''D'', 3), (CHR ''H'', 7), (CHR ''E'', 4), (CHR ''C'', 2)] = map fst ([] :: assignment)"
    by (simp add: pending_def column_def rounding_puzzle_def has_key_def)
  ultimately show "[(CHR ''I'', 8), (CHR ''F'', 5), (CHR ''G'', 6), (CHR ''D'', 3), (CHR ''H'', 7), (CHR ''E'', 4), (CHR ''C'', 2)] \<in> set (bind_all rounding_puzzle (accepts rounding_puzzle ''*'' 9) (pending rounding_puzzle 9 [(CHR ''I'', 8), (CHR ''F'', 5), (CHR ''G'', 6), (CHR ''D'', 3), (CHR ''H'', 7), (CHR ''E'', 4), (CHR ''C'', 2)]) [(CHR ''I'', 8), (CHR ''F'', 5), (CHR ''G'', 6), (CHR ''D'', 3), (CHR ''H'', 7), (CHR ''E'', 4), (CHR ''C'', 2)])"
    by simp
qed

lemma rounding_level_10:
  "[(CHR ''I'', 8), (CHR ''F'', 5), (CHR ''G'', 6), (CHR ''D'', 3), (CHR ''H'', 7), (CHR ''E'', 4), (CHR ''C'', 2)] \<in> set (accepted rounding_puzzle ''*'' 10 10 [])"
proof (rule accepted_next [where sub = "[(CHR ''I'', 8), (CHR ''F'', 5), (CHR ''G'', 6), (CHR ''D'', 3), (CHR ''H'', 7), (CHR ''E'', 4), (CHR ''C'', 2)]"])
  show "needs_lower rounding_puzzle 10 []" by (rule rounding_needs_lower) simp_all
  show "[(CHR ''I'', 8), (CHR ''F'', 5), (CHR ''G'', 6), (CHR ''D'', 3), (CHR ''H'', 7), (CHR ''E'', 4), (CHR ''C'', 2)] \<in> set (accepted rounding_puzzle ''*'' (10 - 1) (10 - 1) [])"
    using rounding_level_9 by simp
  have "candidates_ok rounding_puzzle [(CHR ''I'', 8), (CHR ''F'', 5), (CHR ''G'', 6), (CHR ''D'', 3), (CHR ''H'', 7), (CHR ''E'', 4), (CHR ''C'', 2)] []"
    by (simp add: get_possible_values_filter rounding_first_letters)
  moreover have "accepts rounding_puzzle ''*'' 10 ([(CHR ''I'', 8), (CHR ''F'', 5), (CHR ''G'', 6), (CHR ''D'', 3), (CHR ''H'', 7), (CHR ''E'', 4), (CHR ''C'', 2)] @ [])"
    using rounding_checks(10) by simp
  ultimately have "[(CHR ''I'', 8), (CHR ''F'', 5), (CHR ''G'', 6), (CHR ''D'', 3), (CHR ''H'', 7), (CHR ''E'', 4), (CHR ''C'', 2)] @ [] \<in> set (bind_all rounding_puzzle (accepts rounding_puzzle ''*'' 10) (map fst ([] :: assignment)) [(CHR ''I'', 8), (CHR ''F'', 5), (CHR ''G'', 6), (CHR ''D'', 3), (CHR ''H'', 7), (CHR ''E'', 4), (CHR ''C'', 2)])"
    by (rule bind_all_member)
  moreover have "pending rounding_puzzle 10 [(CHR ''I'', 8), (CHR ''F'', 5), (CHR ''G'', 6), (CHR ''D'', 3), (CHR ''H'', 7), (CHR ''E'', 4), (CHR ''C'', 2)] = map fst ([] :: assignment)"
    by (simp add: pending_def column_def rounding_puzzle_def has_key_def)
  ultimately show "[(CHR ''I'', 8), (CHR ''F'', 5), (CHR ''G'', 6), (CHR ''D'', 3), (CHR ''H'', 7), (CHR ''E'', 4), (CHR ''C'', 2)] \<in> set (bind_all rounding_puzzle (accepts rounding_puzzle ''*'' 10) (pending rounding_puzzle 10 [(CHR ''I'', 8), (CHR ''F'', 5), (CHR ''G'', 6), (CHR ''D'', 3), (CHR ''H'', 7), (CHR ''E'', 4), (CHR ''C'', 2)]) [(CHR ''I'', 8), (CHR ''F'', 5), (CHR ''G'', 6), (CHR ''D'', 3), (CHR ''H'', 7), (CHR ''E'', 4), (CHR ''C'', 2)])"
    by simp
qed

lemma rounding_level_11:
  "[(CHR ''I'', 8), (CHR ''F'', 5), (CHR ''G'', 6), (CHR ''D'', 3), (CHR ''H'', 7), (CHR ''E'', 4), (CHR ''C'', 2)] \<in> set (accepted rounding_puzzle ''*'' 11 11 [])"
proof (rule accepted_next [where sub = "[(CHR ''I'', 8), (CHR ''F'', 5), (CHR ''G'', 6), (CHR ''D'', 3), (CHR ''H'', 7), (CHR ''E'', 4), (CHR ''C'', 2)]"])
  show "needs_lower rounding_puzzle 11 []" by (rule rounding_needs_lower) simp_all
  show "[(CHR ''I'', 8), (CHR ''F'', 5), (CHR ''G'', 6), (CHR ''D'', 3), (CHR ''H'', 7), (CHR ''E'', 4), (CHR ''C'', 2)] \<in> set (accepted rounding_puzzle ''*'' (11 - 1) (11 - 1) [])"
    using rounding_level_10 by simp
  have "candidates_ok rounding_puzzle [(CHR ''I'', 8), (CHR ''F'', 5), (CHR ''G'', 6), (CHR ''D'', 3), (CHR ''H'', 7), (CHR ''E'', 4), (CHR ''C'', 2)] []"
    by (simp add: get_possible_values_filter rounding_first_letters)
  moreover have "accepts rounding_puzzle ''*'' 11 ([(CHR ''I'', 8), (CHR ''F'', 5), (CHR ''G'', 6), (CHR ''D'', 3), (CHR ''H'', 7), (CHR ''E'', 4), (CHR ''C'', 2)] @ [])"
    using rounding_checks(11) by simp
  ultimately have "[(CHR ''I'', 8), (CHR ''F'', 5), (CHR ''G'', 6), (CHR ''D'', 3), (CHR ''H'', 7), (CHR ''E'', 4), (CHR ''C'', 2)] @ [] \<in> set (bind_all rounding_puzzle (accepts rounding_puzzle ''*'' 11) (map fst ([] :: assignment)) [(CHR ''I'', 8), (CHR ''F'', 5), (CHR ''G'', 6), (CHR ''D'', 3), (CHR ''H'', 7), (CHR ''E'', 4), (CHR ''C'', 2)])"
    by (rule bind_all_member)
  moreover have "pending rounding_puzzle 11 [(CHR ''I'', 8), (CHR ''F'', 5), (CHR ''G'', 6), (CHR ''D'', 3), (CHR ''H'', 7), (CHR ''E'', 4), (CHR ''C'', 2)] = map fst ([] :: assignment)"
    by (simp add: pending_def column_def rounding_puzzle_def has_key_def)
  ultimately show "[(CHR ''I'', 8), (CHR ''F'', 5), (CHR ''G'', 6), (CHR ''D'', 3), (CHR ''H'', 7), (CHR ''E'', 4), (CHR ''C'', 2)] \<in> set (bind_all rounding_puzzle (accepts rounding_puzzle ''*'' 11) (pending rounding_puzzle 11 [(CHR ''I'', 8), (CHR ''F'', 5), (CHR ''G'', 6), (CHR ''D'', 3), (CHR ''H'', 7), (CHR ''E'', 4), (CHR ''C'', 2)]) [(CHR ''I'', 8), (CHR ''F'', 5), (CHR ''G'', 6), (CHR ''D'', 3), (CHR ''H'', 7), (CHR ''E'', 4), (CHR ''C'', 2)])"
    by simp
qed

lemma rounding_level_12:
  "[(CHR ''I'', 8), (CHR ''F'', 5), (CHR ''G'', 6), (CHR ''D'', 3), (CHR ''H'', 7), (CHR ''E'', 4), (CHR ''C'', 2)] \<in> set (accepted rounding_puzzle ''*'' 12 12 [])"
proof (rule accepted_next [where sub = "[(CHR ''I'', 8), (CHR ''F'', 5), (CHR ''G'', 6), (CHR ''D'', 3), (CHR ''H'', 7), (CHR ''E'', 4), (CHR ''C'', 2)]"])
  show "needs_lower rounding_puzzle 12 []" by (rule rounding_needs_lower) simp_all
  show "[(CHR ''I'', 8), (CHR ''F'', 5), (CHR ''G'', 6), (CHR ''D'', 3), (CHR ''H'', 7), (CHR ''E'', 4), (CHR ''C'', 2)] \<in> set (accepted rounding_puzzle ''*'' (12 - 1) (12 - 1) [])"
    using rounding_level_11 by simp
  have "candidates_ok rounding_puzzle [(CHR ''I'', 8), (CHR ''F'', 5), (CHR ''G'', 6), (CHR ''D'', 3), (CHR ''H'', 7), (CHR ''E'', 4), (CHR ''C'', 2)] []"
    by (simp add: get_possible_values_filter rounding_first_letters)
  moreover have "accepts rounding_puzzle ''*'' 12 ([(CHR ''I'', 8), (CHR ''F'', 5), (CHR ''G'', 6), (CHR ''D'', 3), (CHR ''H'', 7), (CHR ''E'', 4), (CHR ''C'', 2)] @ [])"
    using rounding_checks(12) by simp
  ultimately have "[(CHR ''I'', 8), (CHR ''F'', 5), (CHR ''G'', 6), (CHR ''D'', 3), (CHR ''H'', 7), (CHR ''E'', 4), (CHR ''C'', 2)] @ [] \<in> set (bind_all rounding_puzzle (accepts rounding_puzzle ''*'' 12) (map fst ([] :: assignment)) [(CHR ''I'', 8), (CHR ''F'', 5), (CHR ''G'', 6), (CHR ''D'', 3), (CHR ''H'', 7), (CHR ''E'', 4), (CHR ''C'', 2)])"
    by (rule bind_all_member)
  moreover have "pending rounding_puzzle 12 [(CHR ''I'', 8), (CHR ''F'', 5), (CHR ''G'', 6), (CHR ''D'', 3), (CHR ''H'', 7), (CHR ''E'', 4), (CHR ''C'', 2)] = map fst ([] :: assignment)"
    by (simp add: pending_def column_def rounding_puzzle_def has_key_def)
  ultimately show "[(CHR ''I'', 8), (CHR ''F'', 5), (CHR ''G'', 6), (CHR ''D'', 3), (CHR ''H'', 7), (CHR ''E'', 4), (CHR ''C'', 2)] \<in> set (bind_all rounding_puzzle (accepts rounding_puzzle ''*'' 12) (pending rounding_puzzle 12 [(CHR ''I'', 8), (CHR ''F'', 5), (CHR ''G'', 6), (CHR ''D'', 3), (CHR ''H'', 7), (CHR ''E'', 4), (CHR ''C'', 2)]) [(CHR ''I'', 8), (CHR ''F'', 5), (CHR ''G'', 6), (CHR ''D'', 3), (CHR ''H'', 7), (CHR ''E'', 4), (CHR ''C'', 2)])"
    by simp
qed

lemma rounding_level_13:
  "[(CHR ''I'', 8), (CHR ''F'', 5), (CHR ''G'', 6), (CHR ''D'', 3), (CHR ''H'', 7), (CHR ''E'', 4), (CHR ''C'', 2)] \<in> set (accepted rounding_puzzle ''*'' 13 13 [])"
proof (rule accepted_next [where sub = "[(CHR ''I'', 8), (CHR ''F'', 5), (CHR ''G'', 6), (CHR ''D'', 3), (CHR ''H'', 7), (CHR ''E'', 4), (CHR ''C'', 2)]"])
  show "needs_lower rounding_puzzle 13 []" by (rule rounding_needs_lower) simp_all
  show "[(CHR ''I'', 8), (CHR ''F'', 5), (CHR ''G'', 6), (CHR ''D'', 3), (CHR ''H'', 7), (CHR ''E'', 4), (CHR ''C'', 2)] \<in> set (accepted rounding_puzzle ''*'' (13 - 1) (13 - 1) [])"
    using rounding_level_12 by simp
  have "candidates_ok rounding_puzzle [(CHR ''I'', 8), (CHR ''F'', 5), (CHR ''G'', 6), (CHR ''D'', 3), (CHR ''H'', 7), (CHR ''E'', 4), (CHR ''C'', 2)] []"
    by (simp add: get_possible_values_filter rounding_first_letters)
  moreover have "accepts rounding_puzzle ''*'' 13 ([(CHR ''I'', 8), (CHR ''F'', 5), (CHR ''G'', 6), (CHR ''D'', 3), (CHR ''H'', 7), (CHR ''E'', 4), (CHR ''C'', 2)] @ [])"
    using rounding_checks(13) by simp
  ultimately have "[(CHR ''I'', 8), (CHR ''F'', 5), (CHR ''G'', 6), (CHR ''D'', 3), (CHR ''H'', 7), (CHR ''E'', 4), (CHR ''C'', 2)] @ [] \<in> set (bind_all rounding_puzzle (accepts rounding_puzzle ''*'' 13) (map fst ([] :: assignment)) [(CHR ''I'', 8), (CHR ''F'', 5), (CHR ''G'', 6), (CHR ''D'', 3), (CHR ''H'', 7), (CHR ''E'', 4), (CHR ''C'', 2)])"
    by (rule bind_all_member)
  moreover have "pending rounding_puzzle 13 [(CHR ''I'', 8), (CHR ''F'', 5), (CHR ''G'', 6), (CHR ''D'', 3), (CHR ''H'', 7), (CHR ''E'', 4), (CHR ''C'', 2)] = map fst ([] :: assignment)"
    by (simp add: pending_def column_def rounding_puzzle_def has_key_def)
  ultimately show "[(CHR ''I'', 8), (CHR ''F'', 5), (CHR ''G'', 6), (CHR ''D'', 3), (CHR ''H'', 7), (CHR ''E'', 4), (CHR ''C'', 2)] \<in> set (bind_all rounding_puzzle (accepts rounding_puzzle ''*'' 13) (pending rounding_puzzle 13 [(CHR ''I'', 8), (CHR ''F'', 5), (CHR ''G'', 6), (CHR ''D'', 3), (CHR ''H'', 7), (CHR ''E'', 4), (CHR ''C'', 2)]) [(CHR ''I'', 8), (CHR ''F'', 5), (CHR ''G'', 6), (CHR ''D'', 3), (CHR ''H'', 7), (CHR ''E'', 4), (CHR ''C'', 2)])"
    by simp
qed

lemma rounding_level_14:
  "[(CHR ''I'', 8), (CHR ''F'', 5), (CHR ''G'', 6), (CHR ''D'', 3), (CHR ''H'', 7), (CHR ''E'', 4), (CHR ''C'', 2)] \<in> set (accepted rounding_puzzle ''*'' 14 14 [])"
proof (rule accepted_next [where sub = "[(CHR ''I'', 8), (CHR ''F'', 5), (CHR ''G'', 6), (CHR ''D'', 3), (CHR ''H'', 7), (CHR ''E'', 4), (CHR ''C'', 2)]"])
  show "needs_lower rounding_puzzle 14 []" by (rule rounding_needs_lower) simp_all
  show "[(CHR ''I'', 8), (CHR ''F'', 5), (CHR ''G'', 6), (CHR ''D'', 3), (CHR ''H'', 7), (CHR ''E'', 4), (CHR ''C'', 2)] \<in> set (accepted rounding_puzzle ''*'' (14 - 1) (14 - 1) [])"
    using rounding_level_13 by simp
  have "candidates_ok rounding_puzzle [(CHR ''I'', 8), (CHR ''F'', 5), (CHR ''G'', 6), (CHR ''D'', 3), (CHR ''H'', 7), (CHR ''E'', 4), (CHR ''C'', 2)] []"
    by (simp add: get_possible_values_filter rounding_first_letters)
  moreover have "accepts rounding_puzzle ''*'' 14 ([(CHR ''I'', 8), (CHR ''F'', 5), (CHR ''G'', 6), (CHR ''D'', 3), (CHR ''H'', 7), (CHR ''E'', 4), (CHR ''C'', 2)] @ [])"
    using rounding_checks(14) by simp
  ultimately have "[(CHR ''I'', 8), (CHR ''F'', 5), (CHR ''G'', 6), (CHR ''D'', 3), (CHR ''H'', 7), (CHR ''E'', 4), (CHR ''C'', 2)] @ [] \<in> set (bind_all rounding_puzzle (accepts rounding_puzzle ''*'' 14) (map fst ([] :: assignment)) [(CHR ''I'', 8), (CHR ''F'', 5), (CHR ''G'', 6), (CHR ''D'', 3), (CHR ''H'', 7), (CHR ''E'', 4), (CHR ''C'', 2)])"
    by (rule bind_all_member)
  moreover have "pending rounding_puzzle 14 [(CHR ''I'', 8), (CHR ''F'', 5), (CHR ''G'', 6), (CHR ''D'', 3), (CHR ''H'', 7), (CHR ''E'', 4), (CHR ''C'', 2)] = map fst ([] :: assignment)"
    by (simp add: pending_def column_def rounding_puzzle_def has_key_def)
  ultimately show "[(CHR ''I'', 8), (CHR ''F'', 5), (CHR ''G'', 6), (CHR ''D'', 3), (CHR ''H'', 7), (CHR ''E'', 4), (CHR ''C'', 2)] \<in> set (bind_all rounding_puzzle (accepts rounding_puzzle ''*'' 14) (pending rounding_puzzle 14 [(CHR ''I'', 8), (CHR ''F'', 5), (CHR ''G'', 6), (CHR ''D'', 3), (CHR ''H'', 7), (CHR ''E'', 4), (CHR ''C'', 2)]) [(CHR ''I'', 8), (CHR ''F'', 5), (CHR ''G'', 6), (CHR ''D'', 3), (CHR ''H'', 7), (CHR ''E'', 4), (CHR ''C'', 2)])"
    by simp
qed

lemma rounding_level_15:
  "[(CHR ''I'', 8), (CHR ''F'', 5), (CHR ''G'', 6), (CHR ''D'', 3), (CHR ''H'', 7), (CHR ''E'', 4), (CHR ''C'', 2), (CHR ''A'', 0)] \<in> set (accepted rounding_puzzle ''*'' 15 15 [])"
proof (rule accepted_next [where sub = "[(CHR ''I'', 8), (CHR ''F'', 5), (CHR ''G'', 6), (CHR ''D'', 3), (CHR ''H'', 7), (CHR ''E'', 4), (CHR ''C'', 2)]"])
  show "needs_lower rounding_puzzle 15 []" by (rule rounding_needs_lower) simp_all
  show "[(CHR ''I'', 8), (CHR ''F'', 5), (CHR ''G'', 6), (CHR ''D'', 3), (CHR ''H'', 7), (CHR ''E'', 4), (CHR ''C'', 2)] \<in> set (accepted rounding_puzzle ''*'' (15 - 1) (15 - 1) [])"
    using rounding_level_14 by simp
  have "candidates_ok rounding_puzzle [(CHR ''I'', 8), (CHR ''F'', 5), (CHR ''G'', 6), (CHR ''D'', 3), (CHR ''H'', 7), (CHR ''E'', 4), (CHR ''C'', 2)] [(CHR ''A'', 0)]"
    by (simp add: get_possible_values_filter rounding_first_letters)
  moreover have "accepts rounding_puzzle ''*'' 15 ([(CHR ''I'', 8), (CHR ''F'', 5), (CHR ''G'', 6), (CHR ''D'', 3), (CHR ''H'', 7), (CHR ''E'', 4), (CHR ''C'', 2)] @ [(CHR ''A'', 0)])"
    using rounding_checks(15) by simp
  ultimately have "[(CHR ''I'', 8), (CHR ''F'', 5), (CHR ''G'', 6), (CHR ''D'', 3), (CHR ''H'', 7), (CHR ''E'', 4), (CHR ''C'', 2)] @ [(CHR ''A'', 0)] \<in> set (bind_all rounding_puzzle (accepts rounding_puzzle ''*'' 15) (map fst ([(CHR ''A'', 0)] :: assignment)) [(CHR ''I'', 8), (CHR ''F'', 5), (CHR ''G'', 6), (CHR ''D'', 3), (CHR ''H'', 7), (CHR ''E'', 4), (CHR ''C'', 2)])"
    by (rule bind_all_member)
  moreover have "pending rounding_puzzle 15 [(CHR ''I'', 8), (CHR ''F'', 5), (CHR ''G'', 6), (CHR ''D'', 3), (CHR ''H'', 7), (CHR ''E'', 4), (CHR ''C'', 2)] = map fst ([(CHR ''A'', 0)] :: assignment)"
    by (simp add: pending_def column_def rounding_puzzle_def has_key_def)
  ultimately show "[(CHR ''I'', 8), (CHR ''F'', 5), (CHR ''G'', 6), (CHR ''D'', 3), (CHR ''H'', 7), (CHR ''E'', 4), (CHR ''C'', 2), (CHR ''A'', 0)] \<in> set (bind_all rounding_puzzle (accepts rounding_puzzle ''*'' 15) (pending rounding_puzzle 15 [(CHR ''I'', 8), (CHR ''F'', 5), (CHR ''G'', 6), (CHR ''D'', 3), (CHR ''H'', 7), (CHR ''E'', 4), (CHR ''C'', 2)]) [(CHR ''I'', 8), (CHR ''F'', 5), (CHR ''G'', 6), (CHR ''D'', 3), (CHR ''H'', 7), (CHR ''E'', 4), (CHR ''C'', 2)])"
    by simp
qed

lemma rounding_level_16:
  "[(CHR ''I'', 8), (CHR ''F'', 5), (CHR ''G'', 6), (CHR ''D'', 3), (CHR ''H'', 7), (CHR ''E'', 4), (CHR ''C'', 2), (CHR ''A'', 0)] \<in> set (accepted rounding_puzzle ''*'' 16 16 [])"
proof (rule accepted_next [where sub = "[(CHR ''I'', 8), (CHR ''F'', 5), (CHR ''G'', 6), (CHR ''D'', 3), (CHR ''H'', 7), (CHR ''E'', 4), (CHR ''C'', 2), (CHR ''A'', 0)]"])
  show "needs_lower rounding_puzzle 16 []" by (rule rounding_needs_lower) simp_all
  show "[(CHR ''I'', 8), (CHR ''F'', 5), (CHR ''G'', 6), (CHR ''D'', 3), (CHR ''H'', 7), (CHR ''E'', 4), (CHR ''C'', 2), (CHR ''A'', 0)] \<in> set (accepted rounding_puzzle ''*'' (16 - 1) (16 - 1) [])"
    using rounding_level_15 by simp
  have "candidates_ok rounding_puzzle [(CHR ''I'', 8), (CHR ''F'', 5), (CHR ''G'', 6), (CHR ''D'', 3), (CHR ''H'', 7), (CHR ''E'', 4), (CHR ''C'', 2), (CHR ''A'', 0)] []"
    by (simp add: get_possible_values_filter rounding_first_letters)
  moreover have "accepts rounding_puzzle ''*'' 16 ([(CHR ''I'', 8), (CHR ''F'', 5), (CHR ''G'', 6), (CHR ''D'', 3), (CHR ''H'', 7), (CHR ''E'', 4), (CHR ''C'', 2), (CHR ''A'', 0)] @ [])"
    using rounding_checks(16) by simp
  ultimately have "[(CHR ''I'', 8), (CHR ''F'', 5), (CHR ''G'', 6), (CHR ''D'', 3), (CHR ''H'', 7), (CHR ''E'', 4), (CHR ''C'', 2), (CHR ''A'', 0)] @ [] \<in> set (bind_all rounding_puzzle (accepts rounding_puzzle ''*'' 16) (map fst ([] :: assignment)) [(CHR ''I'', 8), (CHR ''F'', 5), (CHR ''G'', 6), (CHR ''D'', 3), (CHR ''H'', 7), (CHR ''E'', 4), (CHR ''C'', 2), (CHR ''A'', 0)])"
    by (rule bind_all_member)
  moreover have "pending rounding_puzzle 16 [(CHR ''I'', 8), (CHR ''F'', 5), (CHR ''G'', 6), (CHR ''D'', 3), (CHR ''H'', 7), (CHR ''E'', 4), (CHR ''C'', 2), (CHR ''A'', 0)] = map fst ([] :: assignment)"
    by (simp add: pending_def column_def rounding_puzzle_def has_key_def)
  ultimately show "[(CHR ''I'', 8), (CHR ''F'', 5), (CHR ''G'', 6), (CHR ''D'', 3), (CHR ''H'', 7), (CHR ''E'', 4), (CHR ''C'', 2), (CHR ''A'', 0)] \<in> set (bind_all rounding_puzzle (accepts rounding_puzzle ''*'' 16) (pending rounding_puzzle 16 [(CHR ''I'', 8), (CHR ''F'', 5), (CHR ''G'', 6), (CHR ''D'', 3), (CHR ''H'', 7), (CHR ''E'', 4), (CHR ''C'', 2), (CHR ''A'', 0)]) [(CHR ''I'', 8), (CHR ''F'', 5), (CHR ''G'', 6), (CHR ''D'', 3), (CHR ''H'', 7), (CHR ''E'', 4), (CHR ''C'', 2), (CHR ''A'', 0)])"
    by simp
qed

lemma rounding_level_17:
  "[(CHR ''I'', 8), (CHR ''F'', 5), (CHR ''G'', 6), (CHR ''D'', 3), (CHR ''H'', 7), (CHR ''E'', 4), (CHR ''C'', 2), (CHR ''A'', 0)] \<in> set (accepted rounding_puzzle ''*'' 17 17 [])"
proof (rule accepted_next [where sub = "[(CHR ''I'', 8), (CHR ''F'', 5), (CHR ''G'', 6), (CHR ''D'', 3), (CHR ''H'', 7), (CHR ''E'', 4), (CHR ''C'', 2), (CHR ''A'', 0)]"])
  show "needs_lower rounding_puzzle 17 []" by (rule rounding_needs_lower) simp_all
  show "[(CHR ''I'', 8), (CHR ''F'', 5), (CHR ''G'', 6), (CHR ''D'', 3), (CHR ''H'', 7), (CHR ''E'', 4), (CHR ''C'', 2), (CHR ''A'', 0)] \<in> set (accepted rounding_puzzle ''*'' (17 - 1) (17 - 1) [])"
    using rounding_level_16 by simp
  have "candidates_ok rounding_puzzle [(CHR ''I'', 8), (CHR ''F'', 5), (CHR ''G'', 6), (CHR ''D'', 3), (CHR ''H'', 7), (CHR ''E'', 4), (CHR ''C'', 2), (CHR ''A'', 0)] []"
    by (simp add: get_possible_values_filter rounding_first_letters)
  moreover have "accepts rounding_puzzle ''*'' 17 ([(CHR ''I'', 8), (CHR ''F'', 5), (CHR ''G'', 6), (CHR ''D'', 3), (CHR ''H'', 7), (CHR ''E'', 4), (CHR ''C'', 2), (CHR ''A'', 0)] @ [])"
    using rounding_checks(17) by simp
  ultimately have "[(CHR ''I'', 8), (CHR ''F'', 5), (CHR ''G'', 6), (CHR ''D'', 3), (CHR ''H'', 7), (CHR ''E'', 4), (CHR ''C'', 2), (CHR ''A'', 0)] @ [] \<in> set (bind_all rounding_puzzle (accepts rounding_puzzle ''*'' 17) (map fst ([] :: assignment)) [(CHR ''I'', 8), (CHR ''F'', 5), (CHR ''G'', 6), (CHR ''D'', 3), (CHR ''H'', 7), (CHR ''E'', 4), (CHR ''C'', 2), (CHR ''A'', 0)])"
    by (rule bind_all_member)
  moreover have "pending rounding_puzzle 17 [(CHR ''I'', 8), (CHR ''F'', 5), (CHR ''G'', 6), (CHR ''D'', 3), (CHR ''H'', 7), (CHR ''E'', 4), (CHR ''C'', 2), (CHR ''A'', 0)] = map fst ([] :: assignment)"
    by (simp add: pending_def column_def rounding_puzzle_def has_key_def)
  ultimately show "[(CHR ''I'', 8), (CHR ''F'', 5), (CHR ''G'', 6), (CHR ''D'', 3), (CHR ''H'', 7), (CHR ''E'', 4), (CHR ''C'', 2), (CHR ''A'', 0)] \<in> set (bind_all rounding_puzzle (accepts rounding_puzzle ''*'' 17) (pending rounding_puzzle 17 [(CHR ''I'', 8), (CHR ''F'', 5), (CHR ''G'', 6), (CHR ''D'', 3), (CHR ''H'', 7), (CHR ''E'', 4), (CHR ''C'', 2), (CHR ''A'', 0)]) [(CHR ''I'', 8), (CHR ''F'', 5), (CHR ''G'', 6), (CHR ''D'', 3), (CHR ''H'', 7), (CHR ''E'', 4), (CHR ''C'', 2), (CHR ''A'', 0)])"
    by simp
qed

lemma rounding_level_18:
  "[(CHR ''I'', 8), (CHR ''F'', 5), (CHR ''G'', 6), (CHR ''D'', 3), (CHR ''H'', 7), (CHR ''E'', 4), (CHR ''C'', 2), (CHR ''A'', 0)] \<in> set (accepted rounding_puzzle ''*'' 18 18 [])"
proof (rule accepted_next [where sub = "[(CHR ''I'', 8), (CHR ''F'', 5), (CHR ''G'', 6), (CHR ''D'', 3), (CHR ''H'', 7), (CHR ''E'', 4), (CHR ''C'', 2), (CHR ''A'', 0)]"])
  show "needs_lower rounding_puzzle 18 []" by (rule rounding_needs_lower) simp_all
  show "[(CHR ''I'', 8), (CHR ''F'', 5), (CHR ''G'', 6), (CHR ''D'', 3), (CHR ''H'', 7), (CHR ''E'', 4), (CHR ''C'', 2), (CHR ''A'', 0)] \<in> set (accepted rounding_puzzle ''*'' (18 - 1) (18 - 1) [])"
    using rounding_level_17 by simp
  have "candidates_ok rounding_puzzle [(CHR ''I'', 8), (CHR ''F'', 5), (CHR ''G'', 6), (CHR ''D'', 3), (CHR ''H'', 7), (CHR ''E'', 4), (CHR ''C'', 2), (CHR ''A'', 0)] []"
    by (simp add: get_possible_values_filter rounding_first_letters)
  moreover have "accepts rounding_puzzle ''*'' 18 ([(CHR ''I'', 8), (CHR ''F'', 5), (CHR ''G'', 6), (CHR ''D'', 3), (CHR ''H'', 7), (CHR ''E'', 4), (CHR ''C'', 2), (CHR ''A'', 0)] @ [])"
    using rounding_checks(18) by simp
  ultimately have "[(CHR ''I'', 8), (CHR ''F'', 5), (CHR ''G'', 6), (CHR ''D'', 3), (CHR ''H'', 7), (CHR ''E'', 4), (CHR ''C'', 2), (CHR ''A'', 0)] @ [] \<in> set (bind_all rounding_puzzle (accepts rounding_puzzle ''*'' 18) (map fst ([] :: assignment)) [(CHR ''I'', 8), (CHR ''F'', 5), (CHR ''G'', 6), (CHR ''D'', 3), (CHR ''H'', 7), (CHR ''E'', 4), (CHR ''C'', 2), (CHR ''A'', 0)])"
    by (rule bind_all_member)
  moreover have "pending rounding_puzzle 18 [(CHR ''I'', 8), (CHR ''F'', 5), (CHR ''G'', 6), (CHR ''D'', 3), (CHR ''H'', 7), (CHR ''E'', 4), (CHR ''C'', 2), (CHR ''A'', 0)] = map fst ([] :: assignment)"
    by (simp add: pending_def column_def rounding_puzzle_def has_key_def)
  ultimately show "[(CHR ''I'', 8), (CHR ''F'', 5), (CHR ''G'', 6), (CHR ''D'', 3), (CHR ''H'', 7), (CHR ''E'', 4), (CHR ''C'', 2), (CHR ''A'', 0)] \<in> set (bind_all rounding_puzzle (accepts rounding_puzzle ''*'' 18) (pending rounding_puzzle 18 [(CHR ''I'', 8), (CHR ''F'', 5), (CHR ''G'', 6), (CHR ''D'', 3), (CHR ''H'', 7), (CHR ''E'', 4), (CHR ''C'', 2), (CHR ''A'', 0)]) [(CHR ''I'', 8), (CHR ''F'', 5), (CHR ''G'', 6), (CHR ''D'', 3), (CHR ''H'', 7), (CHR ''E'', 4), (CHR ''C'', 2), (CHR ''A'', 0)])"
    by simp
qed

lemma rounding_level_19:
  "[(CHR ''I'', 8), (CHR ''F'', 5), (CHR ''G'', 6), (CHR ''D'', 3), (CHR ''H'', 7), (CHR ''E'', 4), (CHR ''C'', 2), (CHR ''A'', 0)] \<in> set (accepted rounding_puzzle ''*'' 19 19 [])"
proof (rule accepted_next [where sub = "[(CHR ''I'', 8), (CHR ''F'', 5), (CHR ''G'', 6), (CHR ''D'', 3), (CHR ''H'', 7), (CHR ''E'', 4), (CHR ''C'', 2), (CHR ''A'', 0)]"])
  show "needs_lower rounding_puzzle 19 []" by (rule rounding_needs_lower) simp_all
  show "[(CHR ''I'', 8), (CHR ''F'', 5), (CHR ''G'', 6), (CHR ''D'', 3), (CHR ''H'', 7), (CHR ''E'', 4), (CHR ''C'', 2), (CHR ''A'', 0)] \<in> set (accepted rounding_puzzle ''*'' (19 - 1) (19 - 1) [])"
    using rounding_level_18 by simp
  have "candidates_ok rounding_puzzle [(CHR ''I'', 8), (CHR ''F'', 5), (CHR ''G'', 6), (CHR ''D'', 3), (CHR ''H'', 7), (CHR ''E'', 4), (CHR ''C'', 2), (CHR ''A'', 0)] []"
    by (simp add: get_possible_values_filter rounding_first_letters)
  moreover have "accepts rounding_puzzle ''*'' 19 ([(CHR ''I'', 8), (CHR ''F'', 5), (CHR ''G'', 6), (CHR ''D'', 3), (CHR ''H'', 7), (CHR ''E'', 4), (CHR ''C'', 2), (CHR ''A'', 0)] @ [])"
    using rounding_checks(19) by simp
  ultimately have "[(CHR ''I'', 8), (CHR ''F'', 5), (CHR ''G'', 6), (CHR ''D'', 3), (CHR ''H'', 7), (CHR ''E'', 4), (CHR ''C'', 2), (CHR ''A'', 0)] @ [] \<in> set (bind_all rounding_puzzle (accepts rounding_puzzle ''*'' 19) (map fst ([] :: assignment)) [(CHR ''I'', 8), (CHR ''F'', 5), (CHR ''G'', 6), (CHR ''D'', 3), (CHR ''H'', 7), (CHR ''E'', 4), (CHR ''C'', 2), (CHR ''A'', 0)])"
    by (rule bind_all_member)
  moreover have "pending rounding_puzzle 19 [(CHR ''I'', 8), (CHR ''F'', 5), (CHR ''G'', 6), (CHR ''D'', 3), (CHR ''H'', 7), (CHR ''E'', 4), (CHR ''C'', 2), (CHR ''A'', 0)] = map fst ([] :: assignment)"
    by (simp add: pending_def column_def rounding_puzzle_def has_key_def)
  ultimately show "[(CHR ''I'', 8), (CHR ''F'', 5), (CHR ''G'', 6), (CHR ''D'', 3), (CHR ''H'', 7), (CHR ''E'', 4), (CHR ''C'', 2), (CHR ''A'', 0)] \<in> set (bind_all rounding_puzzle (accepts rounding_puzzle ''*'' 19) (pending rounding_puzzle 19 [(CHR ''I'', 8), (CHR ''F'', 5), (CHR ''G'', 6), (CHR ''D'', 3), (CHR ''H'', 7), (CHR ''E'', 4), (CHR ''C'', 2), (CHR ''A'', 0)]) [(CHR ''I'', 8), (CHR ''F'', 5), (CHR ''G'', 6), (CHR ''D'', 3), (CHR ''H'', 7), (CHR ''E'', 4), (CHR ''C'', 2), (CHR ''A'', 0)])"
    by simp
qed

lemma rounding_level_20:
  "[(CHR ''I'', 8), (CHR ''F'', 5), (CHR ''G'', 6), (CHR ''D'', 3), (CHR ''H'', 7), (CHR ''E'', 4), (CHR ''C'', 2), (CHR ''A'', 0)] \<in> set (accepted rounding_puzzle ''*'' 20 120 [])"
proof (rule accepted_next [where sub = "[(CHR ''I'', 8), (CHR ''F'', 5), (CHR ''G'', 6), (CHR ''D'', 3), (CHR ''H'', 7), (CHR ''E'', 4), (CHR ''C'', 2), (CHR ''A'', 0)]"])
  show "needs_lower rounding_puzzle 20 []" by (rule rounding_needs_lower) simp_all
  show "[(CHR ''I'', 8), (CHR ''F'', 5), (CHR ''G'', 6), (CHR ''D'', 3), (CHR ''H'', 7), (CHR ''E'', 4), (CHR ''C'', 2), (CHR ''A'', 0)] \<in> set (accepted rounding_puzzle ''*'' (20 - 1) (20 - 1) [])"
    using rounding_level_19 by simp
  have "candidates_ok rounding_puzzle [(CHR ''I'', 8), (CHR ''F'', 5), (CHR ''G'', 6), (CHR ''D'', 3), (CHR ''H'', 7), (CHR ''E'', 4), (CHR ''C'', 2), (CHR ''A'', 0)] []"
    by (simp add: get_possible_values_filter rounding_first_letters)
  moreover have "accepts rounding_puzzle ''*'' 120 ([(CHR ''I'', 8), (CHR ''F'', 5), (CHR ''G'', 6), (CHR ''D'', 3), (CHR ''H'', 7), (CHR ''E'', 4), (CHR ''C'', 2), (CHR ''A'', 0)] @ [])"
    using rounding_checks(20) by simp
  ultimately have "[(CHR ''I'', 8), (CHR ''F'', 5), (CHR ''G'', 6), (CHR ''D'', 3), (CHR ''H'', 7), (CHR ''E'', 4), (CHR ''C'', 2), (CHR ''A'', 0)] @ [] \<in> set (bind_all rounding_puzzle (accepts rounding_puzzle ''*'' 120) (map fst ([] :: assignment)) [(CHR ''I'', 8), (CHR ''F'', 5), (CHR ''G'', 6), (CHR ''D'', 3), (CHR ''H'', 7), (CHR ''E'', 4), (CHR ''C'', 2), (CHR ''A'', 0)])"
    by (rule bind_all_member)
  moreover have "pending rounding_puzzle 20 [(CHR ''I'', 8), (CHR ''F'', 5), (CHR ''G'', 6), (CHR ''D'', 3), (CHR ''H'', 7), (CHR ''E'', 4), (CHR ''C'', 2), (CHR ''A'', 0)] = map fst ([] :: assignment)"
    by (simp add: pending_def column_def rounding_puzzle_def has_key_def)
  ultimately show "[(CHR ''I'', 8), (CHR ''F'', 5), (CHR ''G'', 6), (CHR ''D'', 3), (CHR ''H'', 7), (CHR ''E'', 4), (CHR ''C'', 2), (CHR ''A'', 0)] \<in> set (bind_all rounding_puzzle (accepts rounding_puzzle ''*'' 120) (pending rounding_puzzle 20 [(CHR ''I'', 8), (CHR ''F'', 5), (CHR ''G'', 6), (CHR ''D'', 3), (CHR ''H'', 7), (CHR ''E'', 4), (CHR ''C'', 2), (CHR ''A'', 0)]) [(CHR ''I'', 8), (CHR ''F'', 5), (CHR ''G'', 6), (CHR ''D'', 3), (CHR ''H'', 7), (CHR ''E'', 4), (CHR ''C'', 2), (CHR ''A'', 0)])"
    by simp
qed

lemma rounding_upper: "map toUpperCase rounding_puzzle = rounding_puzzle"
  by (simp add: rounding_puzzle_def toUpperCase_def upper_char_def code_def)

lemma rounding_maxlen: "maxlen rounding_puzzle = 20"
  by (simp add: rounding_puzzle_def maxlen_def)

lemma rounding_valid: "valid_puzzle rounding_puzzle"
proof -
  have "length (keys_of (concat rounding_puzzle)) \<le> 10"
    by (simp add: rounding_puzzle_def)
  then have "card (set (concat (map toUpperCase rounding_puzzle))) \<le> 10"
    by (simp only: length_keys_of rounding_upper)
  moreover have "list_all (\<lambda>w. list_all (\<lambda>c. \<not> not_capital c) (toUpperCase w)) rounding_puzzle"
    by (simp add: rounding_puzzle_def toUpperCase_def upper_char_def code_def not_capital_def)
  ultimately show ?thesis
    by (simp add: valid_puzzle_def rounding_puzzle_def)
qed

lemma rounding_values:
  "map (word_value rounding_path) rounding_puzzle
     = [8358, 8358, 8358, 8358, 8358, 40786067536627744768]"
  by (simp add: rounding_puzzle_def rounding_path_def word_value_def digit_of_def)

section \<open>The claims about the search\<close>

lemma aab_upper: "map toUpperCase [''A'', ''A'', ''B''] = [''A'', ''A'', ''B'']"
  by (simp add: toUpperCase_def upper_char_def code_def)

lemma aab_first_call:
  "([(CHR ''A'', 1), (CHR ''B'', 2)], ''1+1=2'',
    ''  1'' @ [CHR 0x0A] @ ''+ 1'' @ [CHR 0x0A] @ ''---'' @ [CHR 0x0A] @ ''  2'')
   \<in> set (fst (solve [''A'', ''A'', ''B''] ''+'' (\<lambda>m e p. None)))"
  by (simp add: aab_solve aab_calls_def)

text \<open>
  C1, at the puzzle IDFI * IDFI * IDFI * IDFI * IDFI = EAHIGAGHFDGGCHHEEHGI. The sink is
  handed the assignment I=8, F=5, G=6, D=3, H=7, E=4, C=2, A=0, and the final check on the
  window \<open>maxlen words * length words\<close> holds of it. It is no solution in exact
  arithmetic: the operands multiply to 40786067536627740768 and the result word reads
  40786067536627744768, the product as the fifth multiplication rounds it.
\<close>

theorem rounded_product_reported:
  "rounding_path \<in> set (map fst (fst (solve rounding_puzzle ''*'' sink)))
   \<and> check_equal rounding_puzzle ''*'' (maxlen rounding_puzzle * length rounding_puzzle) rounding_path
       = Inr True
   \<and> prod_list (map (word_value rounding_path) (butlast rounding_puzzle)) = 40786067536627740768
   \<and> word_value rounding_path (last rounding_puzzle) = 40786067536627744768
   \<and> \<not> exact_solution rounding_puzzle ''*'' rounding_path"
proof -
  have len: "maxlen rounding_puzzle * length rounding_puzzle = 120"
    by (simp add: rounding_maxlen) (simp add: rounding_puzzle_def)
  have "solve rounding_puzzle ''*'' sink =
      run (present rounding_puzzle ''*'' (invoke sink)) (accepted rounding_puzzle ''*'' 20 120 [])"
    using solve_run [OF rounding_valid, of "''*''" sink] len
    by (simp add: rounding_upper rounding_maxlen)
  then have "map fst (fst (solve rounding_puzzle ''*'' sink)) = accepted rounding_puzzle ''*'' 20 120 []"
    by (simp add: run_invoke call_of_def comp_def)
  with rounding_level_20 have reported:
    "rounding_path \<in> set (map fst (fst (solve rounding_puzzle ''*'' sink)))"
    by (simp add: rounding_path_def)
  have check: "check_equal rounding_puzzle ''*'' (maxlen rounding_puzzle * length rounding_puzzle)
      rounding_path = Inr True"
    using rounding_checks(20) by (simp add: len accepts_def rounding_path_def)
  have operands: "map (word_value rounding_path) (butlast rounding_puzzle) = [8358, 8358, 8358, 8358, 8358]"
    using rounding_values by (simp add: rounding_puzzle_def)
  have result: "word_value rounding_path (last rounding_puzzle) = 40786067536627744768"
    using rounding_values by (simp add: rounding_puzzle_def)
  have product: "prod_list (map (word_value rounding_path) (butlast rounding_puzzle)) = 40786067536627740768"
    by (simp add: operands)
  have "\<not> exact_solution rounding_puzzle ''*'' rounding_path"
    by (simp add: exact_solution_def combine_def product result)
  with reported check product result show ?thesis by simp
qed

text \<open>
  C2. In every assignment handed to the sink each letter is bound once and no two
  letters share a digit. This holds all through the search: a candidate digit offered
  for a new letter is never one already in use.
\<close>

theorem accepted_injective:
  "(\<forall>x\<in>set (fst (solve ws operation sink)).
      distinct (map fst (fst x)) \<and> distinct (map snd (fst x)))
   \<and> (\<forall>v\<in>set (get_possible_values c words m).
        distinct (map snd m) \<longrightarrow> distinct (map snd (m @ [(c, v)])))"
proof (intro conjI ballI impI)
  fix x
  assume x: "x \<in> set (fst (solve ws operation sink))"
  let ?P = "\<lambda>m :: assignment. distinct (map fst m) \<and> distinct (map snd m)"
  have "valid_puzzle ws \<and> ?P (fst x)"
  proof (rule solve_calls [where P = ?P and Q = "\<lambda>x. ?P (fst x)", OF _ _ _ x])
    fix len m c v
    assume "?P m" "len \<noteq> 0" "first_missing (map toUpperCase ws) len m = Some c"
      "v \<in> set (get_possible_values c (map toUpperCase ws) m)"
    then show "?P (m @ [(c, v)])"
      using first_missing_Some [of "map toUpperCase ws" len m c]
      by (auto simp: get_possible_values_iff has_key_def)
  qed simp_all
  then show "distinct (map fst (fst x))" "distinct (map snd (fst x))" by simp_all
next
  fix v
  assume "v \<in> set (get_possible_values c words m)" "distinct (map snd m)"
  then show "distinct (map snd (m @ [(c, v)]))"
    by (auto simp: get_possible_values_iff)
qed

theorem accepted_injective_witness:
  "([(CHR ''A'', 1), (CHR ''B'', 2)], ''1+1=2'',
    ''  1'' @ [CHR 0x0A] @ ''+ 1'' @ [CHR 0x0A] @ ''---'' @ [CHR 0x0A] @ ''  2'')
     \<in> set (fst (solve [''A'', ''A'', ''B''] ''+'' (\<lambda>m e p. None)))
   \<and> distinct (map fst [(CHR ''A'', 1 :: nat), (CHR ''B'', 2)])
   \<and> distinct (map snd [(CHR ''A'', 1 :: nat), (CHR ''B'', 2)])
   \<and> 3 \<in> set (get_possible_values (CHR ''B'') [''A'', ''A'', ''B''] [(CHR ''A'', 1)])
   \<and> 1 \<notin> set (get_possible_values (CHR ''B'') [''A'', ''A'', ''B''] [(CHR ''A'', 1)])
   \<and> distinct (map snd ([(CHR ''A'', 1)] @ [(CHR ''B'', 3 :: nat)]))"
  using accepted_injective [of "[''A'', ''A'', ''B'']" "''+''" "\<lambda>m e p. None" "CHR ''B''"
      "[''A'', ''A'', ''B'']" "[(CHR ''A'', 1)]"] aab_first_call
  by (simp add: get_possible_values_iff)

text \<open>
  C3. In every assignment handed to the sink no word's first letter is bound to 0,
  one-letter words included.
\<close>

theorem accepted_no_leading_zero:
  "\<forall>x\<in>set (fst (solve ws operation sink)). \<forall>w\<in>set ws. w \<noteq> [] \<longrightarrow>
      (hd (toUpperCase w), 0) \<notin> set (fst x)"
proof (intro ballI impI)
  fix x w
  assume x: "x \<in> set (fst (solve ws operation sink))" and w: "w \<in> set ws" "w \<noteq> []"
  let ?W = "map toUpperCase ws"
  let ?P = "\<lambda>m :: assignment. \<forall>c. (c, 0) \<in> set m \<longrightarrow> \<not> any ?W (starts_with c)"
  have "valid_puzzle ws \<and> ?P (fst x)"
  proof (rule solve_calls [where P = ?P and Q = "\<lambda>x. ?P (fst x)", OF _ _ _ x])
    fix len m c v
    assume "?P m" "len \<noteq> 0" "first_missing ?W len m = Some c"
      "v \<in> set (get_possible_values c ?W m)"
    then show "?P (m @ [(c, v)])"
      by (auto simp: get_possible_values_iff)
  qed simp_all
  moreover have "starts_with (hd (toUpperCase w)) (toUpperCase w)"
    using w(2) by (cases w) (simp_all add: starts_with_def toUpperCase_def)
  then have "any ?W (starts_with (hd (toUpperCase w)))"
    using w(1) by (auto simp: any_iff)
  ultimately show "(hd (toUpperCase w), 0) \<notin> set (fst x)"
    by blast
qed

theorem accepted_no_leading_zero_witness:
  "([(CHR ''A'', 1), (CHR ''B'', 2)], ''1+1=2'',
    ''  1'' @ [CHR 0x0A] @ ''+ 1'' @ [CHR 0x0A] @ ''---'' @ [CHR 0x0A] @ ''  2'')
     \<in> set (fst (solve [''A'', ''A'', ''B''] ''+'' (\<lambda>m e p. None)))
   \<and> (hd (toUpperCase ''A''), 0) \<notin> set [(CHR ''A'', 1 :: nat), (CHR ''B'', 2)]
   \<and> (hd (toUpperCase ''B''), 0) \<notin> set [(CHR ''A'', 1 :: nat), (CHR ''B'', 2)]"
  using accepted_no_leading_zero [of "[''A'', ''A'', ''B'']" "''+''" "\<lambda>m e p. None"] aab_first_call
  by (simp add: toUpperCase_def upper_char_def code_def)

lemma sum_list_ones: "\<forall>x\<in>set xs. f x = (1::int) \<Longrightarrow> sum_list (map f xs) = int (length xs)"
  by (induction xs) simp_all

text \<open>
  C4, as the code has it, for a sink that returns at each invocation an integer or no
  number, the magnitudes adding up to less than \<open>2 ^ 53\<close> so that the program's additions
  are exact. The count returned is the sum, over the sink invocations, of what the sink
  returned: its number, or 1 when it returned no number. It is the number of accepted
  assignments when each invocation counts 1.
\<close>

theorem count_is_sum_of_hits:
  assumes "snd (solve ws operation sink) = Inr n"
    and "sum_list (map (\<lambda>x. \<bar>hits_of sink x\<bar>) (fst (solve ws operation sink))) < 2 ^ 53"
  shows "n = sum_list (map (hits_of sink) (fst (solve ws operation sink)))
       \<and> ((\<forall>x\<in>set (fst (solve ws operation sink)). hits_of sink x = 1) \<longrightarrow>
            n = int (length (fst (solve ws operation sink))))"
proof -
  have v: "valid_puzzle ws"
    using solve_invalid [of ws operation sink] assms(1) by (cases "valid_puzzle ws") auto
  have "n = sum_list (map (hits_of sink) (fst (solve ws operation sink)))"
  proof (cases "operation = [] \<or> operation = ''+'' \<or> operation = ''*''")
    case True
    from assms(1) show ?thesis
      by (simp add: solve_run [OF v True] run_invoke)
  next
    case False
    then have "solve ws operation sink \<in> unsupported operation"
      using solve_valid [OF v, of operation sink] solve_layers_unsupported [of operation]
      by simp
    with assms(1) show ?thesis
      by (auto simp: unsupported_def)
  qed
  then show ?thesis
    using sum_list_ones [of "fst (solve ws operation sink)" "hits_of sink"] by simp
qed

lemma aab_hits: "length aab_calls = 4"
  by (simp add: aab_calls_def)

theorem count_is_sum_of_hits_witness:
  "snd (solve [''A'', ''A'', ''B''] ''+'' (\<lambda>m e p. None)) = Inr 4
   \<and> sum_list (map (\<lambda>x. \<bar>hits_of (\<lambda>m e p. None) x\<bar>)
         (fst (solve [''A'', ''A'', ''B''] ''+'' (\<lambda>m e p. None)))) = 4
   \<and> length (fst (solve [''A'', ''A'', ''B''] ''+'' (\<lambda>m e p. None))) = 4"
proof -
  have s: "solve [''A'', ''A'', ''B''] ''+'' (\<lambda>m e p. None) = (aab_calls, Inr 4)"
    by (simp add: aab_solve aab_calls_def hits_of_def hit_def)
  then have n: "snd (solve [''A'', ''A'', ''B''] ''+'' (\<lambda>m e p. None)) = Inr 4"
    by simp
  have small: "sum_list (map (\<lambda>x. \<bar>hits_of (\<lambda>m e p. None) x\<bar>)
      (fst (solve [''A'', ''A'', ''B''] ''+'' (\<lambda>m e p. None)))) = 4"
    by (simp add: s) (simp add: aab_calls_def hits_of_def hit_def)
  then have "sum_list (map (\<lambda>x. \<bar>hits_of (\<lambda>m e p. None) x\<bar>)
      (fst (solve [''A'', ''A'', ''B''] ''+'' (\<lambda>m e p. None)))) < 2 ^ 53"
    by (simp only:) simp
  from count_is_sum_of_hits [OF n this] s small show ?thesis
    by (simp add: aab_hits)
qed

text \<open>
  C4 as stated fails for a sink that returns a number: returning 2 for each of the four
  solutions of A + A = B makes the count 8.
\<close>

theorem count_counterexample:
  "length (fst (solve [''A'', ''A'', ''B''] ''+'' (\<lambda>m e p. Some 2))) = 4
   \<and> snd (solve [''A'', ''A'', ''B''] ''+'' (\<lambda>m e p. Some 2)) = Inr 8"
  by (simp add: aab_solve aab_calls_def hits_of_def hit_def)

text \<open>
  C7, as the code has it. For a valid puzzle and an operator that is not empty and
  neither + nor *, the sink is never invoked. The operator is examined by
  \<open>check_equal\<close>, so the error is thrown at the first column check; every puzzle with at
  most nine distinct letters reaches one. Otherwise the outcome is the error or, when the
  candidates run out before any check, the count 0.
\<close>

theorem unsupported_operator:
  assumes "valid_puzzle ws" and "operation \<noteq> []" and "operation \<noteq> ''+''" and "operation \<noteq> ''*''"
  shows "fst (solve ws operation sink) = []
       \<and> (snd (solve ws operation sink) = Inl (InvalidOperation operation)
            \<or> snd (solve ws operation sink) = Inr 0)
       \<and> (card (set (concat (map toUpperCase ws))) \<le> 9 \<longrightarrow>
            solve ws operation sink = ([], Inl (InvalidOperation operation)))"
proof -
  let ?W = "map toUpperCase ws"
  have s: "solve ws operation sink =
      solve_layers ?W operation (invoke sink) (maxlen ?W) [] (maxlen ?W * length ws)"
    using solve_valid [OF assms(1), of operation sink] assms(2) by simp
  have "solve ws operation sink \<in> unsupported operation"
    unfolding s by (rule solve_layers_unsupported [OF assms(2-4)])
  moreover have "solve ws operation sink = ([], Inl (InvalidOperation operation))"
    if "card (set (concat ?W)) \<le> 9"
    unfolding s by (rule solve_layers_raises [OF assms(2-4) that])
  ultimately show ?thesis
    by (auto simp: unsupported_def)
qed

theorem unsupported_operator_witness:
  "valid_puzzle [''A'', ''A'', ''B'']
   \<and> solve [''A'', ''A'', ''B''] ''-'' (\<lambda>m e p. None) = ([], Inl (InvalidOperation ''-''))"
proof -
  have "length (keys_of (concat (map toUpperCase [''A'', ''A'', ''B'']))) \<le> 9"
    by (simp add: toUpperCase_def upper_char_def code_def)
  then have "card (set (concat (map toUpperCase [''A'', ''A'', ''B'']))) \<le> 9"
    by (simp only: length_keys_of)
  with unsupported_operator [OF aab_valid, of "''-''" "\<lambda>m e p. None"] aab_valid
  show ?thesis by simp
qed

text \<open>
  C7 as stated fails twice. The empty operator is taken to be +: the four solutions of
  A + A = B are reported and counted. And with ten one-letter words no column is ever
  checked, so the operator - is never looked at and the count 0 is returned.
\<close>

theorem unsupported_operator_counterexample:
  "valid_puzzle [''A'', ''A'', ''B'']
   \<and> length (fst (solve [''A'', ''A'', ''B''] '''' (\<lambda>m e p. None))) = 4
   \<and> snd (solve [''A'', ''A'', ''B''] '''' (\<lambda>m e p. None)) = Inr 4
   \<and> valid_puzzle [''A'', ''B'', ''C'', ''D'', ''E'', ''F'', ''G'', ''H'', ''I'', ''J'']
   \<and> solve [''A'', ''B'', ''C'', ''D'', ''E'', ''F'', ''G'', ''H'', ''I'', ''J''] ''-'' (\<lambda>m e p. None)
       = ([], Inr 0)"
  using ten_letters_valid ten_letters_solve [of "''-''" "\<lambda>m e p. None"] aab_valid
  by (simp add: ten_letters_def aab_solve aab_calls_def hits_of_def hit_def)

section \<open>SEND + MORE = MONEY\<close>

definition SEND_MORE_MONEY :: "string list" where
  "SEND_MORE_MONEY = [''SEND'', ''MORE'', ''MONEY'']"

lemma smm_first_letters:
  "any SEND_MORE_MONEY (starts_with c) = (c = CHR ''S'' \<or> c = CHR ''M'')"
  by (auto simp: SEND_MORE_MONEY_def starts_with_def)

lemma smm_candidates:
  "get_possible_values c SEND_MORE_MONEY m =
     filter (\<lambda>v. v \<notin> set (map snd m))
       (if c = CHR ''S'' \<or> c = CHR ''M'' then [1, 2, 3, 4, 5, 6, 7, 8, 9] else [0, 1, 2, 3, 4, 5, 6, 7, 8, 9])"
  by (simp only: get_possible_values_filter smm_first_letters)

lemma smm_pending:
  "pending SEND_MORE_MONEY 1 [] = ''DEY''"
  "pending SEND_MORE_MONEY 2 [(CHR ''D'', d), (CHR ''E'', e), (CHR ''Y'', y)] = ''NR''"
  "pending SEND_MORE_MONEY 3 [(CHR ''D'', d), (CHR ''E'', e), (CHR ''Y'', y), (CHR ''N'', n), (CHR ''R'', r)] = ''O''"
  "pending SEND_MORE_MONEY 4 [(CHR ''D'', d), (CHR ''E'', e), (CHR ''Y'', y), (CHR ''N'', n), (CHR ''R'', r),
      (CHR ''O'', k)] = ''SM''"
  "pending SEND_MORE_MONEY 5 [(CHR ''D'', d), (CHR ''E'', e), (CHR ''Y'', y), (CHR ''N'', n), (CHR ''R'', r),
      (CHR ''O'', k), (CHR ''S'', s), (CHR ''M'', j)] = ''''"
  by (simp_all add: pending_def column_def SEND_MORE_MONEY_def has_key_def)

lemma smm_capitals: "list_all capitals SEND_MORE_MONEY"
  by (simp add: SEND_MORE_MONEY_def capitals_def not_capital_def code_def)

definition horner :: "nat list \<Rightarrow> nat" where
  "horner ds = foldl (\<lambda>a d. 10 * a + d) 0 ds"

lemma word_value_horner: "word_value m w = horner (map (digit_of m) w)"
  by (simp add: word_value_def horner_def foldl_map)

lemma window_ok_windows:
  assumes "words \<noteq> []"
  shows "window_ok words operation len m =
     (list_all (all_bound m) (map (window len) words)
      \<and> reduce len (combine operation (butlast (map (word_value m) (map (window len) words))))
          = last (map (word_value m) (map (window len) words)))"
  using assms by (simp add: window_ok_def list_all_iff map_butlast last_map comp_def)

lemma smm_accepts_1:
  assumes "d < 10" "e < 10" "y < 10"
  shows "accepts SEND_MORE_MONEY ''+'' 1
      [(CHR ''D'', d), (CHR ''E'', e), (CHR ''Y'', y)]
      = (reduce 1 (horner [d] + horner [e]) = horner [y])"
proof -
  let ?m = "[(CHR ''D'', d), (CHR ''E'', e), (CHR ''Y'', y)]"
  have "letter_to_digit ?m"
    using assms by (simp add: letter_to_digit_def not_capital_def code_def)
  then have "accepts SEND_MORE_MONEY ''+'' 1 ?m = window_ok SEND_MORE_MONEY ''+'' 1 ?m"
    by (rule accepts_arith [OF _ smm_capitals]) (simp_all add: SEND_MORE_MONEY_def maxlen_def)
  moreover have "map (window 1) SEND_MORE_MONEY = [''D'', ''E'', ''Y'']"
    by (simp add: SEND_MORE_MONEY_def window_def)
  moreover have "list_all (all_bound ?m) [''D'', ''E'', ''Y'']"
    by (simp add: all_bound_def has_key_def)
  moreover have "map (word_value ?m) [''D'', ''E'', ''Y''] = [horner [d], horner [e], horner [y]]"
    by (simp add: word_value_horner digit_of_def)
  ultimately show ?thesis
    by (simp add: window_ok_windows combine_def SEND_MORE_MONEY_def)
qed

lemma smm_accepts_2:
  assumes "d < 10" "e < 10" "y < 10" "n < 10" "r < 10"
  shows "accepts SEND_MORE_MONEY ''+'' 2
      [(CHR ''D'', d), (CHR ''E'', e), (CHR ''Y'', y), (CHR ''N'', n), (CHR ''R'', r)]
      = (reduce 2 (horner [n, d] + horner [r, e]) = horner [e, y])"
proof -
  let ?m = "[(CHR ''D'', d), (CHR ''E'', e), (CHR ''Y'', y), (CHR ''N'', n), (CHR ''R'', r)]"
  have "letter_to_digit ?m"
    using assms by (simp add: letter_to_digit_def not_capital_def code_def)
  then have "accepts SEND_MORE_MONEY ''+'' 2 ?m = window_ok SEND_MORE_MONEY ''+'' 2 ?m"
    by (rule accepts_arith [OF _ smm_capitals]) (simp_all add: SEND_MORE_MONEY_def maxlen_def)
  moreover have "map (window 2) SEND_MORE_MONEY = [''ND'', ''RE'', ''EY'']"
    by (simp add: SEND_MORE_MONEY_def window_def)
  moreover have "list_all (all_bound ?m) [''ND'', ''RE'', ''EY'']"
    by (simp add: all_bound_def has_key_def)
  moreover have "map (word_value ?m) [''ND'', ''RE'', ''EY''] = [horner [n, d], horner [r, e], horner [e, y]]"
    by (simp add: word_value_horner digit_of_def)
  ultimately show ?thesis
    by (simp add: window_ok_windows combine_def SEND_MORE_MONEY_def)
qed

lemma smm_accepts_3:
  assumes "d < 10" "e < 10" "y < 10" "n < 10" "r < 10" "k < 10"
  shows "accepts SEND_MORE_MONEY ''+'' 3
      [(CHR ''D'', d), (CHR ''E'', e), (CHR ''Y'', y), (CHR ''N'', n), (CHR ''R'', r), (CHR ''O'', k)]
      = (reduce 3 (horner [e, n, d] + horner [k, r, e]) = horner [n, e, y])"
proof -
  let ?m = "[(CHR ''D'', d), (CHR ''E'', e), (CHR ''Y'', y), (CHR ''N'', n), (CHR ''R'', r), (CHR ''O'', k)]"
  have "letter_to_digit ?m"
    using assms by (simp add: letter_to_digit_def not_capital_def code_def)
  then have "accepts SEND_MORE_MONEY ''+'' 3 ?m = window_ok SEND_MORE_MONEY ''+'' 3 ?m"
    by (rule accepts_arith [OF _ smm_capitals]) (simp_all add: SEND_MORE_MONEY_def maxlen_def)
  moreover have "map (window 3) SEND_MORE_MONEY = [''END'', ''ORE'', ''NEY'']"
    by (simp add: SEND_MORE_MONEY_def window_def)
  moreover have "list_all (all_bound ?m) [''END'', ''ORE'', ''NEY'']"
    by (simp add: all_bound_def has_key_def)
  moreover have "map (word_value ?m) [''END'', ''ORE'', ''NEY''] = [horner [e, n, d], horner [k, r, e], horner [n, e, y]]"
    by (simp add: word_value_horner digit_of_def)
  ultimately show ?thesis
    by (simp add: window_ok_windows combine_def SEND_MORE_MONEY_def)
qed

lemma smm_accepts_4:
  assumes "d < 10" "e < 10" "y < 10" "n < 10" "r < 10" "k < 10" "s < 10" "j < 10"
  shows "accepts SEND_MORE_MONEY ''+'' 4
      [(CHR ''D'', d), (CHR ''E'', e), (CHR ''Y'', y), (CHR ''N'', n), (CHR ''R'', r), (CHR ''O'', k), (CHR ''S'', s), (CHR ''M'', j)]
      = (reduce 4 (horner [s, e, n, d] + horner [j, k, r, e]) = horner [k, n, e, y])"
proof -
  let ?m = "[(CHR ''D'', d), (CHR ''E'', e), (CHR ''Y'', y), (CHR ''N'', n), (CHR ''R'', r), (CHR ''O'', k), (CHR ''S'', s), (CHR ''M'', j)]"
  have "letter_to_digit ?m"
    using assms by (simp add: letter_to_digit_def not_capital_def code_def)
  then have "accepts SEND_MORE_MONEY ''+'' 4 ?m = window_ok SEND_MORE_MONEY ''+'' 4 ?m"
    by (rule accepts_arith [OF _ smm_capitals]) (simp_all add: SEND_MORE_MONEY_def maxlen_def)
  moreover have "map (window 4) SEND_MORE_MONEY = [''SEND'', ''MORE'', ''ONEY'']"
    by (simp add: SEND_MORE_MONEY_def window_def)
  moreover have "list_all (all_bound ?m) [''SEND'', ''MORE'', ''ONEY'']"
    by (simp add: all_bound_def has_key_def)
  moreover have "map (word_value ?m) [''SEND'', ''MORE'', ''ONEY''] = [horner [s, e, n, d], horner [j, k, r, e], horner [k, n, e, y]]"
    by (simp add: word_value_horner digit_of_def)
  ultimately show ?thesis
    by (simp add: window_ok_windows combine_def SEND_MORE_MONEY_def)
qed

lemma smm_accepts_5:
  assumes "d < 10" "e < 10" "y < 10" "n < 10" "r < 10" "k < 10" "s < 10" "j < 10"
  shows "accepts SEND_MORE_MONEY ''+'' 15
      [(CHR ''D'', d), (CHR ''E'', e), (CHR ''Y'', y), (CHR ''N'', n), (CHR ''R'', r), (CHR ''O'', k), (CHR ''S'', s), (CHR ''M'', j)]
      = (reduce 15 (horner [s, e, n, d] + horner [j, k, r, e]) = horner [j, k, n, e, y])"
proof -
  let ?m = "[(CHR ''D'', d), (CHR ''E'', e), (CHR ''Y'', y), (CHR ''N'', n), (CHR ''R'', r), (CHR ''O'', k), (CHR ''S'', s), (CHR ''M'', j)]"
  have "letter_to_digit ?m"
    using assms by (simp add: letter_to_digit_def not_capital_def code_def)
  then have "accepts SEND_MORE_MONEY ''+'' 15 ?m = window_ok SEND_MORE_MONEY ''+'' 15 ?m"
    by (rule accepts_arith [OF _ smm_capitals]) (simp_all add: SEND_MORE_MONEY_def maxlen_def)
  moreover have "map (window 15) SEND_MORE_MONEY = [''SEND'', ''MORE'', ''MONEY'']"
    by (simp add: SEND_MORE_MONEY_def window_def)
  moreover have "list_all (all_bound ?m) [''SEND'', ''MORE'', ''MONEY'']"
    by (simp add: all_bound_def has_key_def)
  moreover have "map (word_value ?m) [''SEND'', ''MORE'', ''MONEY''] = [horner [s, e, n, d], horner [j, k, r, e], horner [j, k, n, e, y]]"
    by (simp add: word_value_horner digit_of_def)
  ultimately show ?thesis
    by (simp add: window_ok_windows combine_def SEND_MORE_MONEY_def)
qed

lemma smm_needs_lower:
  "\<not> (1 \<noteq> (0::nat) \<and> needs_lower SEND_MORE_MONEY 1 [])"
  "2 \<noteq> (0::nat) \<and> needs_lower SEND_MORE_MONEY 2 []"
  "3 \<noteq> (0::nat) \<and> needs_lower SEND_MORE_MONEY 3 []"
  "4 \<noteq> (0::nat) \<and> needs_lower SEND_MORE_MONEY 4 []"
  "5 \<noteq> (0::nat) \<and> needs_lower SEND_MORE_MONEY 5 []"
  by (simp_all add: needs_lower_def SEND_MORE_MONEY_def has_key_def upt_rec)

lemma smm_predecessors: "(2::nat) - 1 = 1" "(3::nat) - 1 = 2" "(4::nat) - 1 = 3" "(5::nat) - 1 = 4"
  by simp_all

lemma smm_levels:
  "accepted SEND_MORE_MONEY ''+'' 1 1 [] =
     bind_all SEND_MORE_MONEY (accepts SEND_MORE_MONEY ''+'' 1) ''DEY'' []"
  "accepted SEND_MORE_MONEY ''+'' 2 2 [] =
     concat (map (\<lambda>sub. bind_all SEND_MORE_MONEY (accepts SEND_MORE_MONEY ''+'' 2) (pending SEND_MORE_MONEY 2 sub) sub)
       (accepted SEND_MORE_MONEY ''+'' 1 1 []))"
  "accepted SEND_MORE_MONEY ''+'' 3 3 [] =
     concat (map (\<lambda>sub. bind_all SEND_MORE_MONEY (accepts SEND_MORE_MONEY ''+'' 3) (pending SEND_MORE_MONEY 3 sub) sub)
       (accepted SEND_MORE_MONEY ''+'' 2 2 []))"
  "accepted SEND_MORE_MONEY ''+'' 4 4 [] =
     concat (map (\<lambda>sub. bind_all SEND_MORE_MONEY (accepts SEND_MORE_MONEY ''+'' 4) (pending SEND_MORE_MONEY 4 sub) sub)
       (accepted SEND_MORE_MONEY ''+'' 3 3 []))"
  "accepted SEND_MORE_MONEY ''+'' 5 15 [] =
     concat (map (\<lambda>sub. bind_all SEND_MORE_MONEY (accepts SEND_MORE_MONEY ''+'' 15) (pending SEND_MORE_MONEY 5 sub) sub)
       (accepted SEND_MORE_MONEY ''+'' 4 4 []))"
  by (simp_all only: accepted_unfold [of SEND_MORE_MONEY "''+''" 1] accepted_unfold [of SEND_MORE_MONEY "''+''" 2]
      accepted_unfold [of SEND_MORE_MONEY "''+''" 3] accepted_unfold [of SEND_MORE_MONEY "''+''" 4]
      accepted_unfold [of SEND_MORE_MONEY "''+''" 5]
      smm_needs_lower smm_predecessors smm_pending if_True if_False simp_thms)

lemma smm_accepted:
  "accepted SEND_MORE_MONEY ''+'' 5 15 [] =
     [[(CHR ''D'', 7), (CHR ''E'', 5), (CHR ''Y'', 2), (CHR ''N'', 6), (CHR ''R'', 8), (CHR ''O'', 0),
       (CHR ''S'', 9), (CHR ''M'', 1)]]"
  by (simp add: smm_levels smm_pending smm_candidates smm_accepts_1 smm_accepts_2 smm_accepts_3
      smm_accepts_4 smm_accepts_5 reduce_def horner_def del: One_nat_def)

lemma smm_upper: "map toUpperCase [''SEND'', ''MORE'', ''MONEY''] = SEND_MORE_MONEY"
  by (simp add: SEND_MORE_MONEY_def toUpperCase_def upper_char_def code_def)

lemma smm_valid: "valid_puzzle [''SEND'', ''MORE'', ''MONEY'']"
proof -
  have "length (keys_of (concat SEND_MORE_MONEY)) \<le> 10"
    by (simp add: SEND_MORE_MONEY_def)
  then have "card (set (concat (map toUpperCase [''SEND'', ''MORE'', ''MONEY'']))) \<le> 10"
    by (simp only: length_keys_of smm_upper)
  moreover have "list_all (\<lambda>w. list_all (\<lambda>c. \<not> not_capital c) (toUpperCase w)) [''SEND'', ''MORE'', ''MONEY'']"
    by (simp add: toUpperCase_def upper_char_def code_def not_capital_def)
  ultimately show ?thesis
    by (simp add: valid_puzzle_def)
qed

lemma smm_maxlen: "maxlen SEND_MORE_MONEY = 5"
  by (simp add: SEND_MORE_MONEY_def maxlen_def)

text \<open>
  C5. SEND + MORE = MONEY: the sink is invoked once, with D=7, E=5, Y=2, N=6, R=8, O=0,
  S=9, M=1 (in the order the letters were bound), that is 9567 + 1085 = 10652.
\<close>

theorem send_more_money:
  "solve [''SEND'', ''MORE'', ''MONEY''] ''+'' sink =
     ([([(CHR ''D'', 7), (CHR ''E'', 5), (CHR ''Y'', 2), (CHR ''N'', 6), (CHR ''R'', 8),
         (CHR ''O'', 0), (CHR ''S'', 9), (CHR ''M'', 1)],
        ''9567+1085=10652'',
        ''   9567'' @ [CHR 0x0A] @ '' + 1085'' @ [CHR 0x0A] @ ''-------'' @ [CHR 0x0A] @ ''  10652'')],
      Inr (hit (sink [(CHR ''D'', 7), (CHR ''E'', 5), (CHR ''Y'', 2), (CHR ''N'', 6), (CHR ''R'', 8),
         (CHR ''O'', 0), (CHR ''S'', 9), (CHR ''M'', 1)]
        ''9567+1085=10652''
        (''   9567'' @ [CHR 0x0A] @ '' + 1085'' @ [CHR 0x0A] @ ''-------'' @ [CHR 0x0A] @ ''  10652''))))"
proof -
  let ?m = "[(CHR ''D'', 7), (CHR ''E'', 5), (CHR ''Y'', 2), (CHR ''N'', 6), (CHR ''R'', 8),
         (CHR ''O'', 0), (CHR ''S'', 9), (CHR ''M'', 1)] :: assignment"
  have "solve [''SEND'', ''MORE'', ''MONEY''] ''+'' sink =
      run (present SEND_MORE_MONEY ''+'' (invoke sink)) (accepted SEND_MORE_MONEY ''+'' 5 15 [])"
    using solve_run [OF smm_valid, of "''+''" sink]
    unfolding smm_upper smm_maxlen by simp
  also have "\<dots> = ([call_of SEND_MORE_MONEY ''+'' ?m], Inr (hits_of sink (call_of SEND_MORE_MONEY ''+'' ?m)))"
    by (simp only: smm_accepted run_invoke) simp
  also have "call_of SEND_MORE_MONEY ''+'' ?m =
      (?m, ''9567+1085=10652'',
       ''   9567'' @ [CHR 0x0A] @ '' + 1085'' @ [CHR 0x0A] @ ''-------'' @ [CHR 0x0A] @ ''  10652'')"
    by (simp add: call_of_def SEND_MORE_MONEY_def expression_of_def pretty_expression_def
        replace_all_def String_of.simps digit_char_def maxlen_def pad_def repeat_def)
  finally show ?thesis
    by (simp add: hits_of_def)
qed

end
